theory Spec2Isabelle
  imports Complex_Main "HOL-Library.Word"
begin

section \<open>N64 SRAM save converter: a model of \<open>n64_sram_converter.py\<close>\<close>

text \<open>
  The script reads a DreamDumper64 dump (expected 131072 bytes), keeps its first
  0x8000 bytes, sniffs the game title from two byte markers and writes the kept bytes to
  a \<open>.sav\<close> file. The model follows the two functions of the script,
  \<open>detect_game_from_save\<close> and \<open>convert_sram_save\<close>, with the file system, the
  terminal and the exceptions of the Python run time written out as values.
\<close>

subsection \<open>Bytes and the \<open>in\<close> operator on \<open>bytes\<close>\<close>

type_synonym byte = "8 word"
type_synonym bytes = "byte list"

text \<open>\<open>data.startswith(marker)\<close>: the marker is a prefix of the data.\<close>

fun startswith :: "bytes \<Rightarrow> bytes \<Rightarrow> bool" where
  "startswith ds [] = True"
| "startswith [] (m # ms) = False"
| "startswith (d # ds) (m # ms) = (d = m \<and> startswith ds ms)"

text \<open>
  \<open>marker in data\<close> for two \<open>bytes\<close> objects: a search for the marker as a contiguous
  run of the data, tried at offset 0, 1, 2 ... in turn.
\<close>

fun bytes_contains :: "bytes \<Rightarrow> bytes \<Rightarrow> bool" where
  "bytes_contains marker [] = (marker = [])"
| "bytes_contains marker (d # ds) = (startswith (d # ds) marker \<or> bytes_contains marker ds)"

subsection \<open>\<open>detect_game_from_save\<close> (lines 11--22)\<close>

text \<open>
  The dictionary \<open>markers\<close> is iterated with \<open>.items()\<close>, which yields the entries in
  insertion order, so it is an association list. \<open>b'ZELDAZ'\<close> is the six ASCII codes
  5A 45 4C 44 41 5A.
\<close>

definition markers :: "(bytes \<times> string) list" where
  "markers =
     [([0x5A, 0x45, 0x4C, 0x44, 0x41, 0x5A], ''The Legend of Zelda: Ocarina of Time''),
      ([0x12, 0x34, 0x56, 0x78], ''Mario Golf 64'')]"

text \<open>The \<open>for\<close> loop of lines 19--22 over the remaining entries of the table.\<close>

fun scan_markers :: "(bytes \<times> string) list \<Rightarrow> bytes \<Rightarrow> string option" where
  "scan_markers [] data = None"
| "scan_markers ((marker, game_name) # rest) data =
     (if bytes_contains marker (take 1024 data) then Some game_name
      else scan_markers rest data)"

definition detect_game_from_save :: "bytes \<Rightarrow> string option" where
  "detect_game_from_save data = scan_markers markers data"

subsection \<open>Values of the Python run time\<close>

text \<open>
  A call either returns a value or raises. \<open>OSError\<close> stands for itself and its
  subclasses (\<open>IsADirectoryError\<close>, \<open>PermissionError\<close>, \<open>FileNotFoundError\<close>).
\<close>

datatype py_exception = OSError | EOFError | ValueError | ZeroDivisionError

datatype 'a result = Return 'a | Raise py_exception

subsection \<open>\<open>str.lower\<close>, \<open>str.split\<close> and \<open>str.rfind\<close>\<close>

text \<open>
  \<open>lower\<close> is modelled on the ASCII letters; every other character is left as it is.
  The script only compares the lowered response with \<open>'y'\<close>, and \<open>Y\<close> is the only
  character other than \<open>y\<close> whose lower-case form is \<open>y\<close>.
\<close>

definition lower_char :: "char \<Rightarrow> char" where
  "lower_char c =
     (let n = (of_char c :: nat) in if 65 \<le> n \<and> n \<le> 90 then char_of (n + 32) else c)"

definition lower :: "string \<Rightarrow> string" where
  "lower s = map lower_char s"

fun split_sep :: "char \<Rightarrow> string \<Rightarrow> string list" where
  "split_sep sep [] = [[]]"
| "split_sep sep (c # cs) =
     (if c = sep then [] # split_sep sep cs
      else (case split_sep sep cs of [] \<Rightarrow> [[c]] | w # ws \<Rightarrow> (c # w) # ws))"

text \<open>\<open>s.rfind(c)\<close>: the highest index of \<open>c\<close> in \<open>s\<close>, or \<open>-1\<close>.\<close>

fun rfind :: "string \<Rightarrow> char \<Rightarrow> int" where
  "rfind [] c = - 1"
| "rfind (x # xs) c =
     (let r = rfind xs c in if 0 \<le> r then r + 1 else if x = c then 0 else - 1)"

subsection \<open>Paths: \<open>pathlib.Path\<close> on a POSIX system\<close>

text \<open>
  A path object holds a root (empty, one slash or two slashes) and the list of its
  components. \<open>Path s\<close> is the constructor \<open>Path(s)\<close>: it splits at the slashes and
  drops empty components and single-dot components (a double dot is kept). \<open>name\<close>,
  \<open>suffix\<close>, \<open>stem\<close> and \<open>with_suffix\<close> are the properties and the method of that
  name, as in CPython 3.8 to 3.13: the suffix starts at the last dot of the name unless
  that dot is the first or the last character.
\<close>

record path =
  anchor :: string
  tail :: "string list"

definition splitroot :: "string \<Rightarrow> string \<times> string" where
  "splitroot part =
     (if part \<noteq> [] \<and> hd part = CHR ''/'' then
        (let stripped_part = dropWhile (\<lambda>c. c = CHR ''/'') part in
         if length part - length stripped_part = 2 then (''//'', stripped_part)
         else (''/'', stripped_part))
      else ([], part))"

definition Path :: "string \<Rightarrow> path" where
  "Path s =
     (let (r, rel) = splitroot s in
      \<lparr>anchor = r, tail = [x. x \<leftarrow> split_sep CHR ''/'' rel, x \<noteq> [] \<and> x \<noteq> ''.'']\<rparr>)"

definition name :: "path \<Rightarrow> string" where
  "name p = (if tail p = [] then [] else last (tail p))"

definition suffix :: "path \<Rightarrow> string" where
  "suffix p =
     (let nm = name p; i = rfind nm CHR ''.'' in
      if 0 < i \<and> i < int (length nm) - 1 then drop (nat i) nm else [])"

definition stem :: "path \<Rightarrow> string" where
  "stem p =
     (let nm = name p; i = rfind nm CHR ''.'' in
      if 0 < i \<and> i < int (length nm) - 1 then take (nat i) nm else nm)"

definition with_suffix :: "path \<Rightarrow> string \<Rightarrow> path result" where
  "with_suffix p sfx =
     (if CHR ''/'' \<in> set sfx then Raise ValueError
      else if (sfx \<noteq> [] \<and> hd sfx \<noteq> CHR ''.'') \<or> sfx = ''.'' then Raise ValueError
      else
        (let nm = name p in
         if nm = [] then Raise ValueError
         else
           (let old_suffix = suffix p;
                nm' = (if old_suffix = [] then nm @ sfx
                       else take (length nm - length old_suffix) nm @ sfx)
            in Return (p\<lparr>tail := butlast (tail p) @ [nm']\<rparr>))))"

text \<open>
  \<open>str(p)\<close>: the root followed by the components joined with slashes, and a single dot
  for the empty path.
\<close>

fun join_sep :: "string \<Rightarrow> string list \<Rightarrow> string" where
  "join_sep sep [] = []"
| "join_sep sep [x] = x"
| "join_sep sep (x # y # ys) = x @ sep @ join_sep sep (y # ys)"

definition str_path :: "path \<Rightarrow> string" where
  "str_path p =
     (if anchor p = [] \<and> tail p = [] then ''.'' else anchor p @ join_sep ''/'' (tail p))"

subsection \<open>The world the script runs in\<close>

text \<open>
  The file system maps a path object to a regular file with its content or to a
  directory; \<open>writable\<close> tells whether \<open>open(p, 'wb')\<close> succeeds. \<open>stdin\<close> holds the
  lines that \<open>input()\<close> will read, without their newline; \<open>stdout\<close> collects what
  was printed, one constructor for each message of the script, with the values it
  formats. Two path objects that differ are taken to be two files (no links, no
  current directory).
\<close>

datatype node = File bytes | Dir

datatype printed =
    ErrorNotFound string
  | Reading string
  | FileSize nat
  | WarnSize nat
  | Prompt
  | Extracting nat
  | ErrorExtract nat
  | Extracted nat
  | WarnEmpty
  | NonZeroPct rat
  | Detected string
  | Writing string
  | Complete path nat

record world =
  files :: "path \<Rightarrow> node option"
  writable :: "path \<Rightarrow> bool"
  stdin :: "string list"
  stdout :: "printed list"

definition print :: "world \<Rightarrow> printed list \<Rightarrow> world" where
  "print w msgs = w\<lparr>stdout := stdout w @ msgs\<rparr>"

subsection \<open>\<open>convert_sram_save\<close> (lines 25--122)\<close>

text \<open>Line 74: \<open>sum(1 for b in save_data if b != 0)\<close>.\<close>

definition non_zero :: "bytes \<Rightarrow> int" where
  "non_zero save_data = sum_list [1. b \<leftarrow> save_data, b \<noteq> 0]"

text \<open>
  Python's \<open>float\<close> is an IEEE 754 double. \<open>fl x\<close> is the double nearest to the
  rational \<open>x\<close>, ties going to the even significand: \<open>float_exponent x\<close> is the
  binary exponent of \<open>x\<close>, searched downwards from 1023 and stopping at -1022 (below
  that the doubles are subnormal and share the spacing \<open>2^-1074\<close>), and \<open>x\<close> is
  rounded to a multiple of \<open>2^(float_exponent x - 52)\<close>. Overflow to infinity is not
  modelled; the values of the script are at most 100.
\<close>

fun find_exp :: "nat \<Rightarrow> int \<Rightarrow> rat \<Rightarrow> int" where
  "find_exp 0 e x = e"
| "find_exp (Suc n) e x = (if 2 powi e \<le> x then e else find_exp n (e - 1) x)"

definition float_exponent :: "rat \<Rightarrow> int" where
  "float_exponent x = find_exp 2045 1023 \<bar>x\<bar>"

definition round_half_even :: "rat \<Rightarrow> int" where
  "round_half_even y =
     (let f = \<lfloor>y\<rfloor>; r = y - of_int f in
      if r < 1 / 2 then f else if 1 / 2 < r then f + 1 else if even f then f else f + 1)"

definition fl :: "rat \<Rightarrow> rat" where
  "fl x = (let q = 2 powi (float_exponent x - 52) in of_int (round_half_even (x / q)) * q)"

text \<open>
  Line 75: \<open>(non_zero / len(save_data)) * 100\<close>. The true division of two integers
  gives the double nearest to the quotient and raises on a zero divisor; the product
  with 100 is rounded again.
\<close>

definition data_percentage :: "bytes \<Rightarrow> rat result" where
  "data_percentage save_data =
     (if length save_data = 0 then Raise ZeroDivisionError
      else Return (fl (fl (of_int (non_zero save_data) / of_nat (length save_data)) * 100)))"

text \<open>Lines 88--92: the output path object.\<close>

definition determine_output :: "path \<Rightarrow> string option \<Rightarrow> path result" where
  "determine_output input_path output_file =
     (case output_file of
        None \<Rightarrow> with_suffix input_path ''.sav''
      | Some s \<Rightarrow> Return (Path s))"

text \<open>Lines 61--122: everything after the size check.\<close>

definition extract_and_write ::
  "path \<Rightarrow> string option \<Rightarrow> bytes \<Rightarrow> world \<Rightarrow> bool result \<times> world" where
  "extract_and_write input_path output_file data w =
     (let sram_size = (0x8000 :: nat);
          w1 = print w [Extracting sram_size];
          save_data = take sram_size data
      in
      if length save_data \<noteq> sram_size then (Return False, print w1 [ErrorExtract sram_size])
      else
        (let w2 = print w1 [Extracted (length save_data)] in
         case data_percentage save_data of
           Raise e \<Rightarrow> (Raise e, w2)
         | Return pct \<Rightarrow>
             (let w3 = print w2 (if non_zero save_data = 0 then [WarnEmpty] else [NonZeroPct pct]);
                  detected_game = detect_game_from_save save_data;
                  w4 = print w3 (case detected_game of
                                   None \<Rightarrow> []
                                 | Some g \<Rightarrow> if g = [] then [] else [Detected g])
              in
              case determine_output input_path output_file of
                Raise e \<Rightarrow> (Raise e, w4)
              | Return out \<Rightarrow>
                  (let w5 = print w4 [Writing (name out)] in
                   if \<not> writable w5 out then (Raise OSError, w5)
                   else (Return True,
                         print (w5\<lparr>files := (files w5)(out \<mapsto> File save_data)\<rparr>)
                           [Complete out (length save_data)])))))"

definition convert_sram_save ::
  "string \<Rightarrow> string option \<Rightarrow> world \<Rightarrow> bool result \<times> world" where
  "convert_sram_save input_file output_file w =
     (let input_path = Path input_file in
      case files w input_path of
        None \<Rightarrow> (Return False, print w [ErrorNotFound input_file])
      | Some Dir \<Rightarrow> (Raise OSError, print w [Reading (name input_path)])
      | Some (File data) \<Rightarrow>
          (let file_size = length data;
               w1 = print w [Reading (name input_path), FileSize file_size]
           in
           if file_size \<noteq> 131072 then
             (let w2 = print w1 [WarnSize file_size, Prompt] in
              case stdin w2 of
                [] \<Rightarrow> (Raise EOFError, w2)
              | line # rest \<Rightarrow>
                  (let response = lower line; w3 = w2\<lparr>stdin := rest\<rparr> in
                   if response \<noteq> ''y'' then (Return False, w3)
                   else extract_and_write input_path output_file data w3))
           else extract_and_write input_path output_file data w1))"

subsection \<open>Notions used to state the properties\<close>

text \<open>
  \<open>occurs_at pattern window i\<close>: the slice \<open>window[i : i + len(pattern)]\<close> is whole and
  equals the pattern. \<open>occurs_in\<close>: it does so at some offset.
\<close>

definition occurs_at :: "bytes \<Rightarrow> bytes \<Rightarrow> nat \<Rightarrow> bool" where
  "occurs_at pattern window i =
     (i + length pattern \<le> length window \<and> take (length pattern) (drop i window) = pattern)"

definition occurs_in :: "bytes \<Rightarrow> bytes \<Rightarrow> bool" where
  "occurs_in pattern window = (\<exists>i \<le> length window. occurs_at pattern window i)"

text \<open>
  A path object as the constructor builds it: one of the three roots, and components
  that are non-empty, not a single dot and free of slashes.
\<close>

definition normal_path :: "path \<Rightarrow> bool" where
  "normal_path p =
     (anchor p \<in> {[], ''/'', ''//''} \<and>
      (\<forall>c\<in>set (tail p). c \<noteq> [] \<and> c \<noteq> ''.'' \<and> CHR ''/'' \<notin> set c))"

text \<open>What a run printed: the lines added to \<open>stdout\<close>.\<close>

definition output_of :: "world \<Rightarrow> bool result \<times> world \<Rightarrow> printed list" where
  "output_of w r = drop (length (stdout w)) (stdout (snd r))"

text \<open>
  A small world for concrete runs: one input file, every path writable, the given lines
  on the terminal and nothing printed yet.
\<close>

definition sample_world :: "string \<Rightarrow> bytes \<Rightarrow> string list \<Rightarrow> world" where
  "sample_world input_file data lines =
     \<lparr>files = [Path input_file \<mapsto> File data], writable = (\<lambda>p. True),
      stdin = lines, stdout = []\<rparr>"

section \<open>Properties\<close>

subsection \<open>Substring search\<close>

lemma startswith_iff: "startswith ds m \<longleftrightarrow> occurs_at m ds 0"
  by (induction ds m rule: startswith.induct) (auto simp: occurs_at_def)

lemma occurs_at_Cons_Suc: "occurs_at m (d # ds) (Suc i) \<longleftrightarrow> occurs_at m ds i"
  by (simp add: occurs_at_def)

lemma occurs_at_Nil: "occurs_at m [] i \<longleftrightarrow> m = [] \<and> i = 0"
  by (auto simp: occurs_at_def)

lemma bytes_contains_iff: "bytes_contains m ds \<longleftrightarrow> occurs_in m ds"
proof (induction ds)
  case Nil
  show ?case by (auto simp: occurs_in_def occurs_at_Nil)
next
  case (Cons d ds)
  have "occurs_in m (d # ds) \<longleftrightarrow> occurs_at m (d # ds) 0 \<or> occurs_in m ds"
  proof
    assume "occurs_in m (d # ds)"
    then obtain i where i: "occurs_at m (d # ds) i" by (auto simp: occurs_in_def)
    show "occurs_at m (d # ds) 0 \<or> occurs_in m ds"
    proof (cases i)
      case 0
      with i show ?thesis by simp
    next
      case (Suc j)
      with i have "occurs_at m ds j" by (simp add: occurs_at_Cons_Suc)
      moreover from this have "j \<le> length ds" by (simp add: occurs_at_def)
      ultimately show ?thesis by (auto simp: occurs_in_def)
    qed
  next
    assume "occurs_at m (d # ds) 0 \<or> occurs_in m ds"
    then show "occurs_in m (d # ds)"
    proof
      assume "occurs_at m (d # ds) 0"
      then show ?thesis by (auto simp: occurs_in_def)
    next
      assume "occurs_in m ds"
      then obtain j where "j \<le> length ds" "occurs_at m ds j" by (auto simp: occurs_in_def)
      then have "Suc j \<le> length (d # ds)" "occurs_at m (d # ds) (Suc j)"
        by (simp_all add: occurs_at_Cons_Suc)
      then show ?thesis unfolding occurs_in_def by blast
    qed
  qed
  with Cons show ?case by (simp add: startswith_iff)
qed

lemma occurs_at_append: "occurs_at m (ps @ m @ ss) (length ps)"
  by (simp add: occurs_at_def)

lemma occurs_in_append: "occurs_in m (ps @ m @ ss)"
  unfolding occurs_in_def using occurs_at_append [of m ps ss] by (intro exI [of _ "length ps"]) simp

lemma occurs_in_set: "occurs_in m w \<Longrightarrow> set m \<subseteq> set w"
proof -
  assume "occurs_in m w"
  then obtain i where "take (length m) (drop i w) = m" by (auto simp: occurs_in_def occurs_at_def)
  then have "set m = set (take (length m) (drop i w))" by simp
  also have "\<dots> \<subseteq> set w" by (meson set_take_subset set_drop_subset subset_trans)
  finally show ?thesis .
qed

lemma occurs_at_take:
  "occurs_at m (take n ds) i \<longleftrightarrow> occurs_at m ds i \<and> i + length m \<le> n"
  by (auto simp: occurs_at_def take_drop min_def)

subsection \<open>The marker scan\<close>

lemma scan_markers_first:
  "k < length table \<Longrightarrow> occurs_in (fst (table ! k)) (take 1024 data) \<Longrightarrow>
   (\<forall>j<k. \<not> occurs_in (fst (table ! j)) (take 1024 data)) \<Longrightarrow>
   scan_markers table data = Some (snd (table ! k))"
proof (induction table data arbitrary: k rule: scan_markers.induct)
  case (1 data)
  then show ?case by simp
next
  case (2 marker game_name rest data)
  show ?case
  proof (cases k)
    case 0
    with 2 show ?thesis by (simp add: bytes_contains_iff)
  next
    case (Suc k')
    with "2.prems" have no: "\<not> occurs_in marker (take 1024 data)" by auto
    from Suc "2.prems" have "k' < length rest" "occurs_in (fst (rest ! k')) (take 1024 data)"
      "\<forall>j<k'. \<not> occurs_in (fst (rest ! j)) (take 1024 data)" by auto
    with "2.IH" [of k'] no have "scan_markers rest data = Some (snd (rest ! k'))"
      by (simp add: bytes_contains_iff)
    with no Suc show ?thesis by (simp add: bytes_contains_iff)
  qed
qed

lemma scan_markers_none:
  "(\<forall>k<length table. \<not> occurs_in (fst (table ! k)) (take 1024 data)) \<Longrightarrow>
   scan_markers table data = None"
proof (induction table data rule: scan_markers.induct)
  case (1 data)
  then show ?case by simp
next
  case (2 marker game_name rest data)
  from "2.prems" have "\<not> occurs_in marker (take 1024 data)" by auto
  moreover from "2.prems" have "\<forall>k<length rest. \<not> occurs_in (fst (rest ! k)) (take 1024 data)"
    by auto
  ultimately show ?case using "2.IH" by (simp add: bytes_contains_iff)
qed

lemma scan_markers_some:
  "scan_markers table data = Some g \<Longrightarrow>
   \<exists>marker. (marker, g) \<in> set table \<and> occurs_in marker (take 1024 data)"
  by (induction table data rule: scan_markers.induct)
     (auto simp: bytes_contains_iff split: if_splits)

lemma scan_markers_take: "scan_markers table (take 1024 data) = scan_markers table data"
  by (induction table data rule: scan_markers.induct) simp_all

text \<open>
  Claim C3. \<open>detect_game_from_save\<close> is a function of the region bytes. It returns the
  label of the first marker of the table, in table order, that occurs as a contiguous
  run of the first 1024 bytes of the region, and nothing if no marker occurs there. In
  particular, when both markers occur in that window, the Zelda label, which is first
  in the table, is returned.
\<close>

theorem detect_game_first_match:
  "(\<forall>k<length markers.
      occurs_in (fst (markers ! k)) (take 1024 region) \<and>
      (\<forall>j<k. \<not> occurs_in (fst (markers ! j)) (take 1024 region)) \<longrightarrow>
      detect_game_from_save region = Some (snd (markers ! k))) \<and>
   ((\<forall>k<length markers. \<not> occurs_in (fst (markers ! k)) (take 1024 region)) \<longrightarrow>
      detect_game_from_save region = None) \<and>
   (occurs_in [0x5A, 0x45, 0x4C, 0x44, 0x41, 0x5A] (take 1024 region) \<and>
    occurs_in [0x12, 0x34, 0x56, 0x78] (take 1024 region) \<longrightarrow>
      detect_game_from_save region = Some ''The Legend of Zelda: Ocarina of Time'')"
proof (intro conjI allI impI)
  fix k
  assume "k < length markers"
    and "occurs_in (fst (markers ! k)) (take 1024 region) \<and>
         (\<forall>j<k. \<not> occurs_in (fst (markers ! j)) (take 1024 region))"
  then show "detect_game_from_save region = Some (snd (markers ! k))"
    unfolding detect_game_from_save_def by (intro scan_markers_first) simp_all
next
  assume "\<forall>k<length markers. \<not> occurs_in (fst (markers ! k)) (take 1024 region)"
  then show "detect_game_from_save region = None"
    unfolding detect_game_from_save_def by (rule scan_markers_none)
next
  assume "occurs_in [0x5A, 0x45, 0x4C, 0x44, 0x41, 0x5A] (take 1024 region) \<and>
          occurs_in [0x12, 0x34, 0x56, 0x78] (take 1024 region)"
  then show "detect_game_from_save region = Some ''The Legend of Zelda: Ocarina of Time''"
    by (simp add: detect_game_from_save_def markers_def bytes_contains_iff)
qed

theorem detect_game_first_match_witness:
  "occurs_in [0x5A, 0x45, 0x4C, 0x44, 0x41, 0x5A]
     (take 1024 [0x12, 0x34, 0x56, 0x78, 0x5A, 0x45, 0x4C, 0x44, 0x41, 0x5A]) \<and>
   occurs_in [0x12, 0x34, 0x56, 0x78]
     (take 1024 [0x12, 0x34, 0x56, 0x78, 0x5A, 0x45, 0x4C, 0x44, 0x41, 0x5A]) \<and>
   detect_game_from_save [0x12, 0x34, 0x56, 0x78, 0x5A, 0x45, 0x4C, 0x44, 0x41, 0x5A] =
     Some ''The Legend of Zelda: Ocarina of Time'' \<and>
   detect_game_from_save [0x00, 0x12, 0x34, 0x56, 0x78] = Some ''Mario Golf 64'' \<and>
   detect_game_from_save [0x5A, 0x45, 0x4C, 0x44, 0x41, 0x00, 0x12, 0x34, 0x56] = None"
proof -
  let ?r = "[0x12, 0x34, 0x56, 0x78, 0x5A, 0x45, 0x4C, 0x44, 0x41, 0x5A] :: bytes"
  let ?g = "[0x00, 0x12, 0x34, 0x56, 0x78] :: bytes"
  let ?n = "[0x5A, 0x45, 0x4C, 0x44, 0x41, 0x00, 0x12, 0x34, 0x56] :: bytes"
  have z: "occurs_in [0x5A, 0x45, 0x4C, 0x44, 0x41, 0x5A] (take 1024 ?r)"
    by (simp add: bytes_contains_iff [symmetric])
  have m: "occurs_in [0x12, 0x34, 0x56, 0x78] (take 1024 ?r)"
    by (simp add: bytes_contains_iff [symmetric])
  from z m detect_game_first_match [of ?r]
  have both: "detect_game_from_save ?r = Some ''The Legend of Zelda: Ocarina of Time''"
    by blast
  have k: "1 < length markers" by (simp add: markers_def)
  have g: "occurs_in (fst (markers ! 1)) (take 1024 ?g) \<and>
           (\<forall>j<1. \<not> occurs_in (fst (markers ! j)) (take 1024 ?g))"
    by (simp add: markers_def bytes_contains_iff [symmetric])
  from detect_game_first_match [of ?g, THEN conjunct1, rule_format, OF k g]
  have golf: "detect_game_from_save ?g = Some ''Mario Golf 64''"
    by (simp add: markers_def)
  have "\<not> occurs_in (fst (markers ! k)) (take 1024 ?n)" if "k < length markers" for k
  proof -
    from that have "k = 0 \<or> k = 1" by (auto simp: markers_def)
    then show ?thesis by (auto simp: markers_def bytes_contains_iff [symmetric])
  qed
  with detect_game_first_match [of ?n]
  have none: "detect_game_from_save ?n = None" by blast
  from z m both golf none show ?thesis by blast
qed

subsection \<open>The marker scan on a buffer\<close>

text \<open>
  Claim C7, as stated, fails: a 131072-byte buffer that starts with 12 34 56 78 and
  carries \<open>ZELDAZ\<close> at offset 4 is given the Zelda label, because the Zelda marker
  is tried first and the search is for a run anywhere in the first 1024 bytes.
\<close>

theorem mario_golf_prefix_counterexample:
  "length ([0x12, 0x34, 0x56, 0x78, 0x5A, 0x45, 0x4C, 0x44, 0x41, 0x5A] @ replicate 131062 (0::byte)) = 131072 \<and>
   take 4 ([0x12, 0x34, 0x56, 0x78, 0x5A, 0x45, 0x4C, 0x44, 0x41, 0x5A] @ replicate 131062 (0::byte)) =
     [0x12, 0x34, 0x56, 0x78] \<and>
   detect_game_from_save
     (take 0x8000 ([0x12, 0x34, 0x56, 0x78, 0x5A, 0x45, 0x4C, 0x44, 0x41, 0x5A] @ replicate 131062 (0::byte))) =
     Some ''The Legend of Zelda: Ocarina of Time'' \<and>
   detect_game_from_save
     (take 0x8000 ([0x12, 0x34, 0x56, 0x78, 0x5A, 0x45, 0x4C, 0x44, 0x41, 0x5A] @ replicate 131062 (0::byte))) \<noteq>
     Some ''Mario Golf 64''"
proof -
  let ?B = "[0x12, 0x34, 0x56, 0x78, 0x5A, 0x45, 0x4C, 0x44, 0x41, 0x5A] @ replicate 131062 (0::byte)"
  have len: "length ?B = 131072" by simp
  have pre: "take 4 ?B = [0x12, 0x34, 0x56, 0x78]" by simp
  have win: "take 1024 (take 0x8000 ?B) =
      [0x12, 0x34, 0x56, 0x78] @ [0x5A, 0x45, 0x4C, 0x44, 0x41, 0x5A] @ replicate 1014 (0::byte)"
    by simp
  have "occurs_in [0x5A, 0x45, 0x4C, 0x44, 0x41, 0x5A] (take 1024 (take 0x8000 ?B))"
    unfolding win by (rule occurs_in_append)
  then have z: "detect_game_from_save (take 0x8000 ?B) = Some ''The Legend of Zelda: Ocarina of Time''"
    by (simp only: detect_game_from_save_def markers_def scan_markers.simps bytes_contains_iff if_True)
  from len pre z show ?thesis by simp
qed

text \<open>
  Claim C7, amended. For every input buffer of 131072 bytes whose bytes [0,4) equal
  12 34 56 78 and whose first 1024 bytes do not contain \<open>ZELDAZ\<close>, the detection run
  on the extracted region returns the Mario Golf label.
\<close>

theorem mario_golf_prefix:
  assumes "length buffer = 131072"
    and "take 4 buffer = [0x12, 0x34, 0x56, 0x78]"
    and "\<not> occurs_in [0x5A, 0x45, 0x4C, 0x44, 0x41, 0x5A] (take 1024 buffer)"
  shows "detect_game_from_save (take 0x8000 buffer) = Some ''Mario Golf 64''"
proof -
  have win: "take 1024 (take 0x8000 buffer) = take 1024 buffer" by simp
  have "take 1024 buffer = take 4 buffer @ take 1020 (drop 4 buffer)"
    using take_add [of 4 1020 buffer] by simp
  with assms(2) have "take 1024 buffer = [] @ [0x12, 0x34, 0x56, 0x78] @ take 1020 (drop 4 buffer)"
    by simp
  then have "occurs_in [0x12, 0x34, 0x56, 0x78] (take 1024 buffer)"
    using occurs_in_append [of "[0x12, 0x34, 0x56, 0x78]" "[]" "take 1020 (drop 4 buffer)"] by simp
  with assms(3) show ?thesis
    by (simp add: detect_game_from_save_def markers_def bytes_contains_iff)
qed

theorem mario_golf_prefix_witness:
  "length ([0x12, 0x34, 0x56, 0x78] @ replicate 131068 (0::byte)) = 131072 \<and>
   take 4 ([0x12, 0x34, 0x56, 0x78] @ replicate 131068 (0::byte)) = [0x12, 0x34, 0x56, 0x78] \<and>
   \<not> occurs_in [0x5A, 0x45, 0x4C, 0x44, 0x41, 0x5A]
       (take 1024 ([0x12, 0x34, 0x56, 0x78] @ replicate 131068 (0::byte))) \<and>
   detect_game_from_save (take 0x8000 ([0x12, 0x34, 0x56, 0x78] @ replicate 131068 (0::byte))) =
     Some ''Mario Golf 64''"
proof -
  let ?B = "[0x12, 0x34, 0x56, 0x78] @ replicate 131068 (0::byte)"
  have len: "length ?B = 131072" by simp
  have pre: "take 4 ?B = [0x12, 0x34, 0x56, 0x78]" by simp
  have "(0x5A::byte) \<notin> set (take 1024 ?B)" by simp
  then have noz: "\<not> occurs_in [0x5A, 0x45, 0x4C, 0x44, 0x41, 0x5A] (take 1024 ?B)"
    using occurs_in_set [of "[0x5A, 0x45, 0x4C, 0x44, 0x41, 0x5A]" "take 1024 ?B"] by auto
  from len pre noz mario_golf_prefix [OF len pre noz] show ?thesis by simp
qed

text \<open>
  Claim C10. A game is detected only when one of the markers lies entirely within the
  first 1024 bytes of the data. The searched slice \<open>data[:1024]\<close> has no occurrence
  that extends past offset 1024, so an occurrence in the data that starts before offset
  1024 and ends after it is not one of the slice; and the result is that of the
  detection run on the slice alone.
\<close>

theorem marker_within_first_1024:
  "(detect_game_from_save data = Some g \<longrightarrow>
      (\<exists>marker i. (marker, g) \<in> set markers \<and> occurs_at marker data i \<and> i + length marker \<le> 1024)) \<and>
   (\<forall>marker i. 1024 < i + length marker \<longrightarrow> \<not> occurs_at marker (take 1024 data) i) \<and>
   detect_game_from_save data = detect_game_from_save (take 1024 data)"
proof (intro conjI impI allI)
  assume "detect_game_from_save data = Some g"
  then obtain marker where m: "(marker, g) \<in> set markers" "occurs_in marker (take 1024 data)"
    unfolding detect_game_from_save_def using scan_markers_some by blast
  then obtain i where "occurs_at marker (take 1024 data) i" by (auto simp: occurs_in_def)
  then have "occurs_at marker data i \<and> i + length marker \<le> 1024" by (simp add: occurs_at_take)
  with m(1) show "\<exists>marker i. (marker, g) \<in> set markers \<and> occurs_at marker data i \<and> i + length marker \<le> 1024"
    by blast
next
  fix marker :: bytes and i :: nat
  assume "1024 < i + length marker"
  then show "\<not> occurs_at marker (take 1024 data) i" by (simp add: occurs_at_take)
next
  show "detect_game_from_save data = detect_game_from_save (take 1024 data)"
    by (simp add: detect_game_from_save_def scan_markers_take)
qed

theorem marker_within_first_1024_witness:
  "detect_game_from_save (replicate 1020 0 @ [0x12, 0x34, 0x56, 0x78]) = Some ''Mario Golf 64'' \<and>
   (\<exists>marker i. (marker, ''Mario Golf 64'') \<in> set markers \<and>
      occurs_at marker (replicate 1020 0 @ [0x12, 0x34, 0x56, 0x78]) i \<and> i + length marker \<le> 1024) \<and>
   (1024 < 1021 + length [0x12, 0x34, 0x56, 0x78 :: byte] \<and>
    occurs_at [0x12, 0x34, 0x56, 0x78] (replicate 1021 0 @ [0x12, 0x34, 0x56, 0x78]) 1021 \<and>
    \<not> occurs_at [0x12, 0x34, 0x56, 0x78] (take 1024 (replicate 1021 0 @ [0x12, 0x34, 0x56, 0x78])) 1021)"
proof -
  let ?d = "replicate 1020 0 @ [0x12, 0x34, 0x56, 0x78 :: byte]"
  let ?e = "replicate 1021 0 @ [0x12, 0x34, 0x56, 0x78 :: byte]"
  have "(0x5A::byte) \<notin> set (take 1024 ?d)" by simp
  then have noz: "\<not> occurs_in [0x5A, 0x45, 0x4C, 0x44, 0x41, 0x5A] (take 1024 ?d)"
    using occurs_in_set [of "[0x5A, 0x45, 0x4C, 0x44, 0x41, 0x5A]" "take 1024 ?d"] by auto
  have "occurs_in [0x12, 0x34, 0x56, 0x78] (take 1024 ?d)"
    using occurs_in_append [of "[0x12, 0x34, 0x56, 0x78]" "replicate 1020 0" "[]"] by simp
  with noz have d: "detect_game_from_save ?d = Some ''Mario Golf 64''"
    by (simp add: detect_game_from_save_def markers_def bytes_contains_iff)
  have lt: "1024 < 1021 + length [0x12, 0x34, 0x56, 0x78 :: byte]" by simp
  have at: "occurs_at [0x12, 0x34, 0x56, 0x78] ?e 1021"
    using occurs_at_append [of "[0x12, 0x34, 0x56, 0x78]" "replicate 1021 0" "[]"] by simp
  from marker_within_first_1024 [of ?d "''Mario Golf 64''"] d
  have one: "\<exists>marker i. (marker, ''Mario Golf 64'') \<in> set markers \<and>
      occurs_at marker ?d i \<and> i + length marker \<le> 1024" by blast
  from marker_within_first_1024 [of ?e] lt
  have two: "\<not> occurs_at [0x12, 0x34, 0x56, 0x78] (take 1024 ?e) 1021" by blast
  from d one lt at two show ?thesis by blast
qed

text \<open>
  A region whose only marker starts at offset 1021 and ends at offset 1025 is not
  recognised.
\<close>

lemma straddling_marker_not_detected:
  "detect_game_from_save (replicate 1021 0 @ [0x12, 0x34, 0x56, 0x78] @ replicate 31743 0) = None"
proof -
  let ?e = "replicate 1021 0 @ [0x12, 0x34, 0x56, 0x78 :: byte] @ replicate 31743 0"
  have win: "take 1024 ?e = replicate 1021 0 @ [0x12, 0x34, 0x56]" by simp
  have "(0x5A::byte) \<notin> set (take 1024 ?e)" unfolding win by simp
  then have noz: "\<not> occurs_in [0x5A, 0x45, 0x4C, 0x44, 0x41, 0x5A] (take 1024 ?e)"
    using occurs_in_set [of "[0x5A, 0x45, 0x4C, 0x44, 0x41, 0x5A]" "take 1024 ?e"] by auto
  have "(0x78::byte) \<notin> set (take 1024 ?e)" unfolding win by simp
  then have nom: "\<not> occurs_in [0x12, 0x34, 0x56, 0x78] (take 1024 ?e)"
    using occurs_in_set [of "[0x12, 0x34, 0x56, 0x78]" "take 1024 ?e"] by auto
  from noz nom show ?thesis
    by (simp only: detect_game_from_save_def markers_def scan_markers.simps bytes_contains_iff if_False)
qed

subsection \<open>Rounding to a double\<close>

lemma find_exp_cases: "find_exp n e x = e - int n \<or> 2 powi (find_exp n e x) \<le> x"
  by (induction n e x rule: find_exp.induct) auto

lemma powi_less_imp: "(2::rat) powi a < 2 powi b \<Longrightarrow> a < b"
proof (rule ccontr)
  assume lt: "(2::rat) powi a < 2 powi b" and "\<not> a < b"
  then have "b \<le> a" by simp
  then have "(2::rat) powi b \<le> 2 powi a" by (intro power_int_increasing) simp_all
  with lt show False by simp
qed

lemma find_exp_eq:
  "2 powi r \<le> x \<Longrightarrow> x < 2 powi (r + 1) \<Longrightarrow> r \<le> e \<Longrightarrow> e - int n \<le> r \<Longrightarrow> find_exp n e x = r"
proof (induction n e x rule: find_exp.induct)
  case (1 e x)
  then show ?case by simp
next
  case (2 n e x)
  show ?case
  proof (cases "2 powi e \<le> x")
    case True
    with "2.prems"(2) have "(2::rat) powi e < 2 powi (r + 1)" by simp
    then have "e < r + 1" by (rule powi_less_imp)
    with "2.prems"(3) True show ?thesis by simp
  next
    case False
    with "2.prems"(1) have "r \<noteq> e" by auto
    with "2.prems" have "r \<le> e - 1" "e - 1 - int n \<le> r" by simp_all
    with False "2.prems"(1,2) have "find_exp n (e - 1) x = r" by (intro "2.IH") simp_all
    with False show ?thesis by simp
  qed
qed

lemma float_exponent_eq:
  "2 powi r \<le> \<bar>x\<bar> \<Longrightarrow> \<bar>x\<bar> < 2 powi (r + 1) \<Longrightarrow> - 1022 \<le> r \<Longrightarrow> r \<le> 1023 \<Longrightarrow>
   float_exponent x = r"
  unfolding float_exponent_def by (rule find_exp_eq) simp_all

lemma float_exponent_cases:
  "float_exponent x = - 1022 \<or> 2 powi (float_exponent x) \<le> \<bar>x\<bar>"
  unfolding float_exponent_def using find_exp_cases [of 2045 1023 "\<bar>x\<bar>"] by simp

lemma round_half_even_of_int: "round_half_even (of_int z) = z"
  by (simp add: round_half_even_def)

lemma round_on_grid:
  assumes "t \<le> j"
  shows "of_int (round_half_even (of_int m * 2 powi j / 2 powi t)) * 2 powi t =
           (of_int m * 2 powi j :: rat)"
proof -
  define d where "d = nat (j - t)"
  from assms have j: "j = t + int d" by (simp add: d_def)
  have p: "(2::rat) powi j = 2 powi t * 2 ^ d"
    unfolding j by (simp add: power_int_add)
  have "of_int m * 2 powi j / 2 powi t = (of_int (m * 2 ^ d) :: rat)"
    unfolding p by simp
  then have "round_half_even (of_int m * 2 powi j / 2 powi t) = m * 2 ^ d"
    by (simp only: round_half_even_of_int)
  then show ?thesis unfolding p by simp
qed

lemma fl_exact:
  assumes "\<bar>m\<bar> < 2 ^ 53" and "- 1074 \<le> j"
  shows "fl (of_int m * 2 powi j) = of_int m * 2 powi j"
proof -
  let ?x = "of_int m * 2 powi j :: rat"
  let ?e = "float_exponent ?x"
  have le: "?e - 52 \<le> j"
  proof (cases "?e = - 1022")
    case True
    with assms(2) show ?thesis by simp
  next
    case False
    with float_exponent_cases [of ?x] have "2 powi ?e \<le> \<bar>?x\<bar>" by simp
    also have "\<bar>?x\<bar> = of_int \<bar>m\<bar> * 2 powi j" by (simp add: abs_mult)
    also have "\<dots> < 2 ^ 53 * 2 powi j"
    proof -
      from assms(1) have "(of_int \<bar>m\<bar> :: rat) < of_int (2 ^ 53)" by (simp only: of_int_less_iff)
      then have "(of_int \<bar>m\<bar> :: rat) < 2 ^ 53" by simp
      then show ?thesis by (simp add: mult_strict_right_mono)
    qed
    also have "\<dots> = (2::rat) powi (53 + j)" by (simp add: power_int_add)
    finally have "(2::rat) powi ?e < 2 powi (53 + j)" .
    then have "?e < 53 + j" by (rule powi_less_imp)
    then show ?thesis by simp
  qed
  show ?thesis unfolding fl_def Let_def by (rule round_on_grid [OF le])
qed

lemma fl_of_int: "\<bar>m\<bar> < 2 ^ 53 \<Longrightarrow> fl (of_int m) = of_int m"
  using fl_exact [of m 0] by simp

lemma fl_dyadic:
  assumes "k < 2 ^ 53" and "n \<le> 1074"
  shows "fl (of_nat k / 2 ^ n) = of_nat k / 2 ^ n"
proof -
  have "(of_nat k / 2 ^ n :: rat) = of_int (int k) * 2 powi (- int n)"
    by (simp add: power_int_minus field_simps)
  moreover from assms have "fl (of_int (int k) * 2 powi (- int n)) = of_int (int k) * 2 powi (- int n)"
    by (intro fl_exact) simp_all
  ultimately show ?thesis by simp
qed

text \<open>
  Roundings that are not exact: one third, the product of its double with 100 (which is
  not the double nearest to 100/3), and two ties.
\<close>

lemma fl_third: "fl (1 / 3) = 6004799503160661 / 2 ^ 54"
proof -
  have e: "float_exponent (1 / 3) = - 2"
    by (rule float_exponent_eq) (simp_all add: power_int_minus)
  have f: "\<lfloor>18014398509481984 / 3 :: rat\<rfloor> = 6004799503160661"
    by (rule floor_unique) simp_all
  have "round_half_even (18014398509481984 / 3) = 6004799503160661"
    by (simp add: round_half_even_def f)
  then show ?thesis
    by (simp add: fl_def Let_def e power_int_minus)
qed

lemma fl_third_times_100:
  "fl (fl (1 / 3) * 100) = 4691249611844266 / 2 ^ 47 \<and>
   fl (fl (1 / 3) * 100) \<noteq> 100 / 3"
proof -
  let ?y = "150119987579016525 / 4503599627370496 :: rat"
  have y: "fl (1 / 3) * 100 = ?y" by (simp add: fl_third)
  have e: "float_exponent ?y = 5"
    by (rule float_exponent_eq) simp_all
  have q: "?y / 2 powi (5 - 52) = 150119987579016525 / 32"
    by (simp add: power_int_minus)
  have f: "\<lfloor>150119987579016525 / 32 :: rat\<rfloor> = 4691249611844266"
    by (rule floor_unique) simp_all
  have r: "round_half_even (150119987579016525 / 32) = 4691249611844266"
    by (simp add: round_half_even_def f)
  have "fl ?y = of_int 4691249611844266 * 2 powi (5 - 52)"
    unfolding fl_def Let_def e q r ..
  also have "\<dots> = 4691249611844266 / 2 ^ 47" by (simp add: power_int_minus)
  finally have "fl (fl (1 / 3) * 100) = 4691249611844266 / 2 ^ 47" by (simp only: y)
  then show ?thesis by simp
qed

lemma fl_tie_to_even:
  "fl 9007199254740993 = 9007199254740992 \<and> fl 9007199254740995 = 9007199254740996"
proof -
  have e1: "float_exponent 9007199254740993 = 53" by (rule float_exponent_eq) simp_all
  have e3: "float_exponent 9007199254740995 = 53" by (rule float_exponent_eq) simp_all
  have q1: "(9007199254740993 :: rat) / 2 powi (53 - 52) = 9007199254740993 / 2" by simp
  have q3: "(9007199254740995 :: rat) / 2 powi (53 - 52) = 9007199254740995 / 2" by simp
  have f1: "\<lfloor>9007199254740993 / 2 :: rat\<rfloor> = 4503599627370496"
    by (rule floor_unique) simp_all
  have f3: "\<lfloor>9007199254740995 / 2 :: rat\<rfloor> = 4503599627370497"
    by (rule floor_unique) simp_all
  have r1: "round_half_even (9007199254740993 / 2) = 4503599627370496"
    by (simp add: round_half_even_def f1)
  have r3: "round_half_even (9007199254740995 / 2) = 4503599627370498"
    by (simp add: round_half_even_def f3)
  have "fl 9007199254740993 = of_int 4503599627370496 * 2 powi (53 - 52)"
    unfolding fl_def Let_def e1 q1 r1 ..
  moreover have "fl 9007199254740995 = of_int 4503599627370498 * 2 powi (53 - 52)"
    unfolding fl_def Let_def e3 q3 r3 ..
  ultimately show ?thesis by simp
qed

subsection \<open>The share of non-zero bytes\<close>

lemma non_zero_count: "non_zero xs = int (length (filter (\<lambda>b. b \<noteq> 0) xs))"
  unfolding non_zero_def by (induction xs) simp_all

lemma non_zero_all_zero: "\<forall>b\<in>set xs. b = 0 \<Longrightarrow> non_zero xs = 0"
  by (simp add: non_zero_count filter_empty_conv)

lemma non_zero_no_zero: "0 \<notin> set xs \<Longrightarrow> non_zero xs = int (length xs)"
proof -
  assume "0 \<notin> set xs"
  then have "filter (\<lambda>b. b \<noteq> 0) xs = xs" by (intro filter_True) auto
  then show ?thesis by (simp add: non_zero_count)
qed

lemma non_zero_le: "non_zero xs \<le> int (length xs)"
  by (simp add: non_zero_count)

lemma fl_0: "fl 0 = 0"
  using fl_of_int [of 0] by simp

lemma fl_1: "fl 1 = 1"
  using fl_of_int [of 1] by simp

lemma fl_100: "fl 100 = 100"
  using fl_of_int [of 100] by simp

text \<open>
  On a region of 0x8000 bytes both operations of line 75 are exact: the quotient is
  \<open>k / 2^15\<close> and the product \<open>100 k / 2^15\<close> with \<open>100 k < 2^53\<close>.
\<close>

lemma data_percentage_region:
  assumes "length save_data = 0x8000"
  shows "data_percentage save_data = Return (of_int (non_zero save_data) / 32768 * 100)"
proof -
  define k where "k = length (filter (\<lambda>b. b \<noteq> 0) save_data)"
  have "k \<le> length save_data" unfolding k_def by (rule length_filter_le)
  with assms have k: "k \<le> 32768" by simp
  have nz: "non_zero save_data = int k" unfolding k_def by (rule non_zero_count)
  from k have q: "fl (of_nat k / 2 ^ 15) = of_nat k / 2 ^ 15" by (intro fl_dyadic) simp_all
  from k have p: "fl (of_nat (100 * k) / 2 ^ 15) = of_nat (100 * k) / 2 ^ 15"
    by (intro fl_dyadic) simp_all
  from assms have ne: "length save_data \<noteq> 0" by simp
  have x1: "of_int (non_zero save_data) / of_nat (length save_data) = (of_nat k / 2 ^ 15 :: rat)"
    using assms by (simp add: nz)
  have x2: "of_nat k / 2 ^ 15 * 100 = (of_nat (100 * k) / 2 ^ 15 :: rat)" by simp
  have "data_percentage save_data =
      Return (fl (fl (of_int (non_zero save_data) / of_nat (length save_data)) * 100))"
    unfolding data_percentage_def using ne by (simp only: if_False)
  also have "\<dots> = Return (fl (fl (of_nat k / 2 ^ 15) * 100))" unfolding x1 ..
  also have "\<dots> = Return (fl (of_nat k / 2 ^ 15 * 100))" unfolding q ..
  also have "\<dots> = Return (fl (of_nat (100 * k) / 2 ^ 15))" unfolding x2 ..
  also have "\<dots> = Return (of_nat (100 * k) / 2 ^ 15)" unfolding p ..
  also have "\<dots> = Return (of_int (non_zero save_data) / 32768 * 100)" by (simp add: nz)
  finally show ?thesis .
qed

text \<open>
  On a region of three bytes with one non-zero byte the two roundings show: the result
  is the double 33.33333333333333, not the double nearest to 100/3.
\<close>

lemma data_percentage_rounds:
  "data_percentage [1, 0, 0] = Return (4691249611844266 / 2 ^ 47) \<and>
   data_percentage [1, 0, 0] \<noteq> Return (100 / 3)"
proof -
  have "data_percentage [1, 0, 0] = Return (fl (fl (1 / 3) * 100))"
    by (simp add: data_percentage_def non_zero_def)
  with fl_third_times_100 show ?thesis by simp
qed

text \<open>
  Claim C5. On a region of 0x8000 bytes, the size the script computes it on, the
  percentage is 100 times the number of bytes other than 0x00, divided by the length of
  the region. For a region of zero bytes only, of any positive length, it is 0, and for
  a region without a zero byte, of any positive length, it is 100. (On the empty region
  the division of line 75 raises.)
\<close>

theorem data_percentage_ratio:
  "(length region = 0x8000 \<longrightarrow>
      data_percentage region =
        Return (100 * of_nat (length (filter (\<lambda>b. b \<noteq> 0) region)) / of_nat (length region))) \<and>
   (region \<noteq> [] \<and> (\<forall>b\<in>set region. b = 0) \<longrightarrow> data_percentage region = Return 0) \<and>
   (region \<noteq> [] \<and> 0 \<notin> set region \<longrightarrow> data_percentage region = Return 100)"
proof (intro conjI impI)
  assume len: "length region = 0x8000"
  from data_percentage_region [OF len] len
  show "data_percentage region =
      Return (100 * of_nat (length (filter (\<lambda>b. b \<noteq> 0) region)) / of_nat (length region))"
    by (simp add: non_zero_count)
next
  assume "region \<noteq> [] \<and> (\<forall>b\<in>set region. b = 0)"
  then show "data_percentage region = Return 0"
    by (simp add: data_percentage_def non_zero_all_zero fl_0)
next
  assume h: "region \<noteq> [] \<and> 0 \<notin> set region"
  then have "non_zero region = int (length region)" by (simp add: non_zero_no_zero)
  moreover from h have "(of_nat (length region) :: rat) / of_nat (length region) = 1" by simp
  ultimately show "data_percentage region = Return 100"
    using h by (simp add: data_percentage_def fl_1 fl_100)
qed

theorem data_percentage_ratio_witness:
  "length (replicate 0x2000 0 @ replicate 0x6000 (0xFF::byte)) = 0x8000 \<and>
   data_percentage (replicate 0x2000 0 @ replicate 0x6000 0xFF) = Return 75 \<and>
   data_percentage (replicate 0x8000 0) = Return 0 \<and>
   data_percentage (replicate 3 0xFF) = Return 100"
proof -
  let ?r = "replicate 0x2000 0 @ replicate 0x6000 (0xFF::byte)"
  have a: "length ?r = 0x8000" by simp
  have b: "replicate 0x8000 (0::byte) \<noteq> [] \<and> (\<forall>b\<in>set (replicate 0x8000 (0::byte)). b = 0)" by simp
  have c: "replicate 3 (0xFF::byte) \<noteq> [] \<and> 0 \<notin> set (replicate 3 (0xFF::byte))" by simp
  from a data_percentage_ratio [of ?r]
  have "data_percentage ?r = Return 75" by simp
  moreover from b data_percentage_ratio [of "replicate 0x8000 0"]
  have "data_percentage (replicate 0x8000 0) = Return 0" by blast
  moreover from c data_percentage_ratio [of "replicate 3 0xFF"]
  have "data_percentage (replicate 3 0xFF) = Return 100" by blast
  ultimately show ?thesis using a by blast
qed

subsection \<open>The output path\<close>

lemma rfind_range: "- 1 \<le> rfind s c \<and> rfind s c < int (length s)"
  by (induction s) (auto simp: Let_def)

lemma rfind_nth: "0 \<le> rfind s c \<Longrightarrow> s ! nat (rfind s c) = c"
proof (induction s)
  case Nil
  then show ?case by simp
next
  case (Cons x xs)
  show ?case
  proof (cases "0 \<le> rfind xs c")
    case True
    with Cons.IH have "xs ! nat (rfind xs c) = c" by simp
    with True show ?thesis by (simp add: Let_def nat_add_distrib)
  next
    case False
    with Cons.prems show ?thesis by (simp add: Let_def split: if_splits)
  qed
qed

lemma rfind_absent: "rfind s c < 0 \<Longrightarrow> c \<notin> set s"
  by (induction s) (auto simp: Let_def split: if_splits)

lemma rfind_last: "0 \<le> rfind s c \<Longrightarrow> c \<notin> set (drop (Suc (nat (rfind s c))) s)"
proof (induction s)
  case Nil
  then show ?case by simp
next
  case (Cons x xs)
  show ?case
  proof (cases "0 \<le> rfind xs c")
    case True
    with Cons.IH have "c \<notin> set (drop (Suc (nat (rfind xs c))) xs)" by simp
    with True show ?thesis by (simp add: Let_def nat_add_distrib)
  next
    case False
    then have "c \<notin> set xs" using rfind_absent [of xs c] by simp
    with False Cons.prems show ?thesis by (simp add: Let_def split: if_splits)
  qed
qed

lemma stem_suffix: "name p = stem p @ suffix p"
  by (simp add: stem_def suffix_def Let_def)

lemma suffix_shape:
  "suffix p = [] \<or> (\<exists>ext. suffix p = CHR ''.'' # ext \<and> ext \<noteq> [] \<and> CHR ''.'' \<notin> set ext)"
proof (cases "0 < rfind (name p) CHR ''.'' \<and> rfind (name p) CHR ''.'' < int (length (name p)) - 1")
  case False
  then have "suffix p = []" unfolding suffix_def Let_def by (simp only: if_False)
  then show ?thesis by simp
next
  case True
  let ?nm = "name p"
  let ?i = "nat (rfind ?nm CHR ''.'')"
  from True have i: "?i < length ?nm" "Suc ?i < length ?nm" by auto
  from True have sfx: "suffix p = drop ?i ?nm" by (simp add: suffix_def Let_def)
  from True have "?nm ! ?i = CHR ''.''" using rfind_nth [of ?nm "CHR ''.''"] by simp
  with i have "drop ?i ?nm = CHR ''.'' # drop (Suc ?i) ?nm"
    using Cons_nth_drop_Suc [of ?i ?nm] by simp
  moreover from i have "drop (Suc ?i) ?nm \<noteq> []" by simp
  moreover from True have "CHR ''.'' \<notin> set (drop (Suc ?i) ?nm)"
    using rfind_last [of ?nm "CHR ''.''"] by simp
  ultimately show ?thesis using sfx by simp
qed

lemma with_suffix_sav:
  assumes "name p \<noteq> []"
  shows "with_suffix p ''.sav'' = Return (p\<lparr>tail := butlast (tail p) @ [stem p @ ''.sav'']\<rparr>)"
proof -
  have "take (length (name p) - length (suffix p)) (name p) = stem p"
    using stem_suffix [of p] by (metis append_eq_conv_conj add_diff_cancel_right' length_append)
  moreover have "suffix p = [] \<Longrightarrow> name p = stem p" using stem_suffix [of p] by simp
  ultimately show ?thesis using assms by (simp add: with_suffix_def Let_def)
qed

lemma rfind_none: "c \<notin> set s \<Longrightarrow> rfind s c = - 1"
  by (induction s) (auto simp: Let_def)

lemma rfind_append: "c \<notin> set ext \<Longrightarrow> rfind (s @ c # ext) c = int (length s)"
  by (induction s) (simp_all add: Let_def rfind_none)

lemma name_last: "tail p = ds @ [nm] \<Longrightarrow> name p = nm"
  by (simp add: name_def)

lemma stem_ext:
  assumes "tail p = ds @ [s @ CHR ''.'' # ext]" and "s \<noteq> []" and "ext \<noteq> []"
    and "CHR ''.'' \<notin> set ext"
  shows "stem p = s"
proof -
  from assms(1) have nm: "name p = s @ CHR ''.'' # ext" by (rule name_last)
  from assms(4) have i: "rfind (s @ CHR ''.'' # ext) CHR ''.'' = int (length s)"
    by (rule rfind_append)
  from assms(2,3) show ?thesis by (simp add: stem_def Let_def nm i)
qed

lemma stem_plain:
  assumes "tail p = ds @ [nm]"
    and "CHR ''.'' \<notin> set nm \<or> (\<exists>rest. nm = CHR ''.'' # rest \<and> CHR ''.'' \<notin> set rest) \<or>
         (\<exists>pre. nm = pre @ ''.'')"
  shows "stem p = nm"
proof -
  from assms(1) have nm: "name p = nm" by (rule name_last)
  from assms(2) consider
      (nodot) "CHR ''.'' \<notin> set nm"
    | (hidden) rest where "nm = CHR ''.'' # rest" "CHR ''.'' \<notin> set rest"
    | (trailing) pre where "nm = pre @ ''.''"
    by blast
  then show ?thesis
  proof cases
    case nodot
    then have "rfind nm CHR ''.'' = - 1" by (rule rfind_none)
    then show ?thesis by (simp add: stem_def Let_def nm)
  next
    case hidden
    from hidden(2) have "rfind ([] @ CHR ''.'' # rest) CHR ''.'' = int (length ([] :: string))"
      by (rule rfind_append)
    with hidden(1) have "rfind nm CHR ''.'' = 0" by simp
    then show ?thesis by (simp add: stem_def Let_def nm)
  next
    case trailing
    have "rfind (pre @ CHR ''.'' # []) CHR ''.'' = int (length pre)"
      by (rule rfind_append) simp
    with trailing have "rfind nm CHR ''.'' = int (length nm) - 1" by simp
    then show ?thesis by (simp add: stem_def Let_def nm)
  qed
qed

lemma with_suffix_last:
  assumes "tail p = ds @ [nm]" and "nm \<noteq> []"
  shows "with_suffix p ''.sav'' = Return (p\<lparr>tail := ds @ [stem p @ ''.sav'']\<rparr>)"
proof -
  from assms have "name p \<noteq> []" by (simp add: name_last)
  from with_suffix_sav [OF this] assms(1) show ?thesis by simp
qed

lemma split_sep_plain: "sep \<notin> set x \<Longrightarrow> split_sep sep x = [x]"
  by (induction x) auto

lemma comprehension_filter: "concat (map (\<lambda>x. if P x then [x] else []) xs) = filter P xs"
  by (induction xs) simp_all

lemma split_sep_append:
  "sep \<notin> set x \<Longrightarrow> split_sep sep (x @ sep # rest) = x # split_sep sep rest"
  by (induction x) auto

lemma split_sep_free: "\<forall>w\<in>set (split_sep sep s). sep \<notin> set w"
  by (induction s) (auto split: list.splits)

lemma split_join:
  "comps \<noteq> [] \<Longrightarrow> \<forall>c\<in>set comps. CHR ''/'' \<notin> set c \<Longrightarrow>
   split_sep CHR ''/'' (join_sep ''/'' comps) = comps"
  by (induction "''/''" comps rule: join_sep.induct)
     (simp_all add: split_sep_plain split_sep_append)

lemma hd_join:
  "comps \<noteq> [] \<Longrightarrow> \<forall>c\<in>set comps. c \<noteq> [] \<and> CHR ''/'' \<notin> set c \<Longrightarrow>
   join_sep ''/'' comps \<noteq> [] \<and> hd (join_sep ''/'' comps) \<noteq> CHR ''/''"
proof (induction "''/''" comps rule: join_sep.induct)
  case 1
  then show ?case by simp
next
  case (2 x)
  then show ?case by (cases x) auto
next
  case (3 x y ys)
  then show ?case by (cases x) auto
qed

lemma splitroot_anchor:
  assumes "a \<in> {[], ''/'', ''//''}" and "rel = [] \<or> hd rel \<noteq> CHR ''/''"
  shows "splitroot (a @ rel) = (a, rel)"
proof -
  from assms(2) have d: "dropWhile (\<lambda>c. c = CHR ''/'') rel = rel" by (cases rel) auto
  from assms(1) consider "a = []" | "a = ''/''" | "a = ''//''" by auto
  then show ?thesis
  proof cases
    case 1
    with assms(2) show ?thesis by (auto simp: splitroot_def)
  next
    case 2
    then show ?thesis by (simp add: splitroot_def d Let_def)
  next
    case 3
    then show ?thesis by (simp add: splitroot_def d Let_def)
  qed
qed

lemma Path_str_path:
  assumes "normal_path p"
  shows "Path (str_path p) = p"
proof (cases "tail p = []")
  case True
  from assms consider "anchor p = []" | "anchor p = ''/''" | "anchor p = ''//''"
    by (auto simp: normal_path_def)
  then show ?thesis
  proof cases
    case 1
    with True have "Path (str_path p) = \<lparr>anchor = [], tail = []\<rparr>"
      by (simp add: str_path_def Path_def splitroot_def)
    with 1 True show ?thesis by (cases p) simp
  next
    case 2
    with True have "Path (str_path p) = \<lparr>anchor = ''/'', tail = []\<rparr>"
      by (simp add: str_path_def Path_def splitroot_def)
    with 2 True show ?thesis by (cases p) simp
  next
    case 3
    with True have "Path (str_path p) = \<lparr>anchor = ''//'', tail = []\<rparr>"
      by (simp add: str_path_def Path_def splitroot_def)
    with 3 True show ?thesis by (cases p) simp
  qed
next
  case False
  let ?rel = "join_sep ''/'' (tail p)"
  from assms have a: "anchor p \<in> {[], ''/'', ''//''}"
    and c: "\<forall>c\<in>set (tail p). c \<noteq> [] \<and> c \<noteq> ''.'' \<and> CHR ''/'' \<notin> set c"
    by (simp_all add: normal_path_def)
  from c have c1: "\<forall>c\<in>set (tail p). c \<noteq> [] \<and> CHR ''/'' \<notin> set c"
    and c2: "\<forall>c\<in>set (tail p). CHR ''/'' \<notin> set c" by auto
  from hd_join [OF False c1] have "?rel = [] \<or> hd ?rel \<noteq> CHR ''/''" by simp
  from splitroot_anchor [OF a this] have sr: "splitroot (anchor p @ ?rel) = (anchor p, ?rel)" .
  from c have f: "[x\<leftarrow>tail p. x \<noteq> [] \<and> x \<noteq> ''.''] = tail p" by (intro filter_True) auto
  from False have "str_path p = anchor p @ ?rel" by (simp add: str_path_def)
  then have "Path (str_path p) = \<lparr>anchor = anchor p, tail = tail p\<rparr>"
    by (simp add: Path_def sr split_join [OF False c2] comprehension_filter f)
  then show ?thesis by (cases p) simp
qed

lemma splitroot_fst: "fst (splitroot s) \<in> {[], ''/'', ''//''}"
proof (cases "s \<noteq> [] \<and> hd s = CHR ''/''")
  case False
  then have "splitroot s = ([], s)" unfolding splitroot_def by (simp only: if_False)
  then show ?thesis by simp
next
  case True
  show ?thesis
  proof (cases "length s - length (dropWhile (\<lambda>c. c = CHR ''/'') s) = 2")
    case two: True
    with True have "splitroot s = (''//'', dropWhile (\<lambda>c. c = CHR ''/'') s)"
      by (simp add: splitroot_def Let_def)
    then show ?thesis by simp
  next
    case other: False
    with True have "splitroot s = (''/'', dropWhile (\<lambda>c. c = CHR ''/'') s)"
      by (simp add: splitroot_def Let_def)
    then show ?thesis by simp
  qed
qed

lemma Path_splitroot:
  "splitroot s = (r, rel) \<Longrightarrow>
   Path s = \<lparr>anchor = r, tail = [x\<leftarrow>split_sep CHR ''/'' rel. x \<noteq> [] \<and> x \<noteq> ''.'']\<rparr>"
  by (simp add: Path_def comprehension_filter)

lemma normal_pathI:
  "r \<in> {[], ''/'', ''//''} \<Longrightarrow>
   \<forall>c\<in>set xs. c \<noteq> [] \<and> c \<noteq> ''.'' \<and> CHR ''/'' \<notin> set c \<Longrightarrow>
   normal_path \<lparr>anchor = r, tail = xs\<rparr>"
  unfolding normal_path_def by simp

lemma split_sep_filtered:
  "\<forall>c\<in>set [x\<leftarrow>split_sep CHR ''/'' rel. x \<noteq> [] \<and> x \<noteq> ''.''].
      c \<noteq> [] \<and> c \<noteq> ''.'' \<and> CHR ''/'' \<notin> set c"
  using split_sep_free [of "CHR ''/''" rel] by simp

lemma normal_path_Path: "normal_path (Path s)"
proof -
  obtain r rel where sr: "splitroot s = (r, rel)" by (cases "splitroot s")
  from splitroot_fst [of s] have r: "r \<in> {[], ''/'', ''//''}" unfolding sr fst_conv .
  show ?thesis
    unfolding Path_splitroot [OF sr] using r split_sep_filtered by (rule normal_pathI)
qed

text \<open>
  Claim C6. Without an explicit output path: when the last component of the input
  path is \<open>s.ext\<close> with \<open>s\<close> and \<open>ext\<close> non-empty and \<open>ext\<close> free of dots, the
  output path is the input path with that component replaced by \<open>s.sav\<close>; when the
  last component has no dot, or its only dot is its first character, or it ends with a
  dot, \<open>.sav\<close> is appended to it. Root and the other components are those of the
  input path. With an explicit output path: the output path is the path object that
  the string denotes, whatever the input path is; for the string of a path object it is
  that object, and for every string it is a normal path object that its own string
  gives back.
\<close>

theorem output_path_derivation:
  "(tail input_path = ds @ [s @ CHR ''.'' # ext] \<and> s \<noteq> [] \<and> ext \<noteq> [] \<and>
    CHR ''.'' \<notin> set ext \<longrightarrow>
      determine_output input_path None =
        Return (input_path\<lparr>tail := ds @ [s @ ''.sav'']\<rparr>)) \<and>
   (tail input_path = ds @ [nm] \<and> nm \<noteq> [] \<and>
    (CHR ''.'' \<notin> set nm \<or> (\<exists>rest. nm = CHR ''.'' # rest \<and> CHR ''.'' \<notin> set rest) \<or>
     (\<exists>pre. nm = pre @ ''.'')) \<longrightarrow>
      determine_output input_path None =
        Return (input_path\<lparr>tail := ds @ [nm @ ''.sav'']\<rparr>)) \<and>
   (normal_path q \<longrightarrow> determine_output input_path (Some (str_path q)) = Return q) \<and>
   determine_output input_path (Some out_str) = Return (Path out_str) \<and>
   normal_path (Path out_str) \<and>
   Path (str_path (Path out_str)) = Path out_str"
proof (intro conjI impI)
  assume h: "tail input_path = ds @ [s @ CHR ''.'' # ext] \<and> s \<noteq> [] \<and> ext \<noteq> [] \<and>
    CHR ''.'' \<notin> set ext"
  from h have t: "tail input_path = ds @ [s @ CHR ''.'' # ext]" by (rule conjunct1)
  from h have s: "s \<noteq> []" and e: "ext \<noteq> []" and d: "CHR ''.'' \<notin> set ext" by blast+
  have ne: "s @ CHR ''.'' # ext \<noteq> []" by simp
  show "determine_output input_path None =
      Return (input_path\<lparr>tail := ds @ [s @ ''.sav'']\<rparr>)"
    unfolding determine_output_def option.case with_suffix_last [OF t ne] stem_ext [OF t s e d] ..
next
  assume h: "tail input_path = ds @ [nm] \<and> nm \<noteq> [] \<and>
    (CHR ''.'' \<notin> set nm \<or> (\<exists>rest. nm = CHR ''.'' # rest \<and> CHR ''.'' \<notin> set rest) \<or>
     (\<exists>pre. nm = pre @ ''.''))"
  from h have t: "tail input_path = ds @ [nm]" by (rule conjunct1)
  from h have ne: "nm \<noteq> []" by blast
  from h have c: "CHR ''.'' \<notin> set nm \<or> (\<exists>rest. nm = CHR ''.'' # rest \<and> CHR ''.'' \<notin> set rest) \<or>
     (\<exists>pre. nm = pre @ ''.'')" by blast
  show "determine_output input_path None =
      Return (input_path\<lparr>tail := ds @ [nm @ ''.sav'']\<rparr>)"
    unfolding determine_output_def option.case with_suffix_last [OF t ne] stem_plain [OF t c] ..
next
  assume "normal_path q"
  then have "Path (str_path q) = q" by (rule Path_str_path)
  then show "determine_output input_path (Some (str_path q)) = Return q"
    unfolding determine_output_def option.case by (rule arg_cong)
next
  show "determine_output input_path (Some out_str) = Return (Path out_str)"
    unfolding determine_output_def option.case ..
next
  show "normal_path (Path out_str)" by (rule normal_path_Path)
next
  show "Path (str_path (Path out_str)) = Path out_str"
    by (rule Path_str_path) (rule normal_path_Path)
qed

theorem output_path_derivation_witness:
  "determine_output (Path ''saves/ROMF.ram'') None =
     Return \<lparr>anchor = [], tail = [''saves'', ''ROMF.sav'']\<rparr> \<and>
   determine_output (Path ''ROMF'') None = Return \<lparr>anchor = [], tail = [''ROMF.sav'']\<rparr> \<and>
   determine_output (Path ''.hidden'') None = Return \<lparr>anchor = [], tail = [''.hidden.sav'']\<rparr> \<and>
   normal_path \<lparr>anchor = ''/'', tail = [''out'', ''Mario Golf 64.sav'']\<rparr> \<and>
   str_path \<lparr>anchor = ''/'', tail = [''out'', ''Mario Golf 64.sav'']\<rparr> = ''/out/Mario Golf 64.sav'' \<and>
   determine_output (Path ''saves/ROMF.ram'') (Some ''/out/Mario Golf 64.sav'') =
     Return \<lparr>anchor = ''/'', tail = [''out'', ''Mario Golf 64.sav'']\<rparr>"
proof -
  let ?q = "\<lparr>anchor = ''/'', tail = [''out'', ''Mario Golf 64.sav'']\<rparr>"
  have p1: "Path ''saves/ROMF.ram'' = \<lparr>anchor = [], tail = [''saves'', ''ROMF.ram'']\<rparr>"
    by (simp add: Path_def splitroot_def)
  have p2: "Path ''ROMF'' = \<lparr>anchor = [], tail = [''ROMF'']\<rparr>"
    by (simp add: Path_def splitroot_def)
  have p3: "Path ''.hidden'' = \<lparr>anchor = [], tail = [''.hidden'']\<rparr>"
    by (simp add: Path_def splitroot_def)
  have h1: "tail (Path ''saves/ROMF.ram'') = [''saves''] @ [''ROMF'' @ CHR ''.'' # ''ram''] \<and>
      ''ROMF'' \<noteq> [] \<and> ''ram'' \<noteq> [] \<and> CHR ''.'' \<notin> set ''ram''"
    by (simp add: p1)
  have h2: "tail (Path ''ROMF'') = [] @ [''ROMF''] \<and> ''ROMF'' \<noteq> [] \<and>
      (CHR ''.'' \<notin> set ''ROMF'' \<or>
       (\<exists>rest. ''ROMF'' = CHR ''.'' # rest \<and> CHR ''.'' \<notin> set rest) \<or>
       (\<exists>pre. ''ROMF'' = pre @ ''.''))"
    by (simp add: p2)
  have h3: "tail (Path ''.hidden'') = [] @ [''.hidden''] \<and> ''.hidden'' \<noteq> [] \<and>
      (CHR ''.'' \<notin> set ''.hidden'' \<or>
       (\<exists>rest. ''.hidden'' = CHR ''.'' # rest \<and> CHR ''.'' \<notin> set rest) \<or>
       (\<exists>pre. ''.hidden'' = pre @ ''.''))"
    by (simp add: p3)
  have n: "normal_path ?q" by (simp add: normal_path_def)
  have s: "str_path ?q = ''/out/Mario Golf 64.sav''" by (simp add: str_path_def)
  from output_path_derivation [where input_path = "Path ''saves/ROMF.ram''" and ds = "[''saves'']"
      and s = "''ROMF''" and ext = "''ram''", THEN conjunct1] h1
  have a: "determine_output (Path ''saves/ROMF.ram'') None =
     Return \<lparr>anchor = [], tail = [''saves'', ''ROMF.sav'']\<rparr>"
    by (simp add: p1)
  from output_path_derivation [where input_path = "Path ''ROMF''" and ds = "[]"
      and nm = "''ROMF''", THEN conjunct2, THEN conjunct1] h2
  have b: "determine_output (Path ''ROMF'') None = Return \<lparr>anchor = [], tail = [''ROMF.sav'']\<rparr>"
    by (simp add: p2)
  from output_path_derivation [where input_path = "Path ''.hidden''" and ds = "[]"
      and nm = "''.hidden''", THEN conjunct2, THEN conjunct1] h3
  have c: "determine_output (Path ''.hidden'') None =
     Return \<lparr>anchor = [], tail = [''.hidden.sav'']\<rparr>"
    by (simp add: p3)
  from output_path_derivation [where input_path = "Path ''saves/ROMF.ram''" and q = ?q,
      THEN conjunct2, THEN conjunct2, THEN conjunct1] n
  have d: "determine_output (Path ''saves/ROMF.ram'') (Some ''/out/Mario Golf 64.sav'') = Return ?q"
    by (simp add: s)
  from a b c n s d show ?thesis by (intro conjI)
qed

subsection \<open>The confirmation and the extraction\<close>

lemma lower_char_y: "lower_char c = CHR ''y'' \<longleftrightarrow> c = CHR ''y'' \<or> c = CHR ''Y''"
proof (cases "65 \<le> (of_char c :: nat) \<and> (of_char c :: nat) \<le> 90")
  case True
  then have lc: "lower_char c = char_of ((of_char c :: nat) + 32)"
    by (simp add: lower_char_def Let_def)
  have "char_of ((of_char c :: nat) + 32) = CHR ''y'' \<longleftrightarrow> (of_char c :: nat) = 89"
  proof
    assume "char_of ((of_char c :: nat) + 32) = CHR ''y''"
    then have "(of_char (char_of ((of_char c :: nat) + 32)) :: nat) = of_char CHR ''y''" by simp
    then have "((of_char c :: nat) + 32) mod 256 = 121" by simp
    with True show "(of_char c :: nat) = 89" by simp
  next
    assume "(of_char c :: nat) = 89"
    then have "char_of ((of_char c :: nat) + 32) = char_of (121::nat)" by simp
    also have "\<dots> = char_of (of_char CHR ''y'' :: nat)" by simp
    also have "\<dots> = CHR ''y''" by (rule char_of_char)
    finally show "char_of ((of_char c :: nat) + 32) = CHR ''y''" .
  qed
  moreover have "(of_char c :: nat) = 89 \<longleftrightarrow> c = CHR ''Y''"
  proof -
    have "(of_char CHR ''Y'' :: nat) = 89" by simp
    then show ?thesis by (metis of_char_eq_iff)
  qed
  moreover from True have "c \<noteq> CHR ''y''" by auto
  ultimately show ?thesis using lc by simp
next
  case False
  then have "lower_char c = c" unfolding lower_char_def Let_def by (simp only: if_False)
  moreover from False have "c \<noteq> CHR ''Y''" by auto
  ultimately show ?thesis by simp
qed

lemma lower_y: "lower r = ''y'' \<longleftrightarrow> r = ''y'' \<or> r = ''Y''"
proof -
  have "lower r = ''y'' \<longleftrightarrow> (\<exists>c. r = [c] \<and> lower_char c = CHR ''y'')"
    by (cases r) (auto simp: lower_def)
  then show ?thesis by (auto simp: lower_char_y)
qed

lemma print_simps:
  "files (print w ms) = files w"
  "writable (print w ms) = writable w"
  "stdin (print w ms) = stdin w"
  "stdout (print w ms) = stdout w @ ms"
  by (simp_all add: print_def)

lemma extract_short:
  assumes "length data < 0x8000"
  shows "extract_and_write input_path output_file data w =
           (Return False, print w [Extracting 0x8000, ErrorExtract 0x8000])"
  using assms by (simp add: extract_and_write_def Let_def print_def)

lemma extract_success:
  assumes "0x8000 \<le> length data"
    and "determine_output input_path output_file = Return out"
    and "writable w out"
  shows "fst (extract_and_write input_path output_file data w) = Return True \<and>
         files (snd (extract_and_write input_path output_file data w)) =
           (files w)(out \<mapsto> File (take 0x8000 data)) \<and>
         stdin (snd (extract_and_write input_path output_file data w)) = stdin w"
proof -
  from assms(1) have len: "length (take 0x8000 data) = 0x8000" by simp
  show ?thesis
    unfolding extract_and_write_def Let_def
    using len assms(2,3) by (simp add: data_percentage_region print_simps)
qed

lemma extract_True_only:
  assumes "fst (extract_and_write input_path output_file data w) = Return True"
  shows "\<exists>out. determine_output input_path output_file = Return out \<and> writable w out \<and>
           0x8000 \<le> length data \<and>
           files (snd (extract_and_write input_path output_file data w)) =
             (files w)(out \<mapsto> File (take 0x8000 data))"
proof (cases "0x8000 \<le> length data")
  case False
  then have "length data < 0x8000" by simp
  from extract_short [OF this] assms show ?thesis by simp
next
  case True
  then have len: "length (take 0x8000 data) = 0x8000" by simp
  show ?thesis
  proof (cases "determine_output input_path output_file")
    case (Raise e)
    with len assms show ?thesis
      by (simp add: extract_and_write_def Let_def data_percentage_region)
  next
    case (Return out)
    show ?thesis
    proof (cases "writable w out")
      case False
      with len Return assms show ?thesis
        by (simp add: extract_and_write_def Let_def data_percentage_region print_simps)
    next
      case w: True
      from extract_success [OF True Return w] Return w True show ?thesis by simp
    qed
  qed
qed

text \<open>
  The output file is written last: a run of lines 61--122 that does not return
  \<open>True\<close> leaves the file system as it was.
\<close>

lemma extract_files_unchanged:
  assumes "fst (extract_and_write input_path output_file data w) \<noteq> Return True"
  shows "files (snd (extract_and_write input_path output_file data w)) = files w"
proof (cases "0x8000 \<le> length data")
  case False
  then have "length data < 0x8000" by simp
  from extract_short [OF this] show ?thesis by (simp add: print_simps)
next
  case True
  then have len: "length (take 0x8000 data) = 0x8000" by simp
  show ?thesis
  proof (cases "determine_output input_path output_file")
    case (Raise e)
    with len show ?thesis
      by (simp add: extract_and_write_def Let_def data_percentage_region print_simps)
  next
    case (Return out)
    show ?thesis
    proof (cases "writable w out")
      case False
      with len Return show ?thesis
        by (simp add: extract_and_write_def Let_def data_percentage_region print_simps)
    next
      case w: True
      from extract_success [OF True Return w] assms show ?thesis by simp
    qed
  qed
qed

lemma extract_stdout:
  "\<exists>ms. stdout (snd (extract_and_write input_path output_file data w)) =
          stdout w @ Extracting 0x8000 # ms \<and> Prompt \<notin> set ms \<and> (\<forall>n. WarnSize n \<notin> set ms)"
  unfolding extract_and_write_def Let_def
  by (simp add: print_simps split: if_splits result.splits option.splits)

subsection \<open>The runs of \<open>convert_sram_save\<close>\<close>

lemma convert_exact:
  assumes "files w (Path input_file) = Some (File data)" and "length data = 131072"
  shows "convert_sram_save input_file output_file w =
           extract_and_write (Path input_file) output_file data
             (print w [Reading (name (Path input_file)), FileSize 131072])"
  using assms by (simp add: convert_sram_save_def Let_def)

lemma convert_mismatch_eof:
  assumes "files w (Path input_file) = Some (File data)" and "length data \<noteq> 131072"
    and "stdin w = []"
  shows "convert_sram_save input_file output_file w =
           (Raise EOFError,
            print w [Reading (name (Path input_file)), FileSize (length data),
                     WarnSize (length data), Prompt])"
  using assms by (simp add: convert_sram_save_def Let_def print_def)

lemma convert_mismatch_declined:
  assumes "files w (Path input_file) = Some (File data)" and "length data \<noteq> 131072"
    and "stdin w = r # rest" and "lower r \<noteq> ''y''"
  shows "convert_sram_save input_file output_file w =
           (Return False,
            (print w [Reading (name (Path input_file)), FileSize (length data),
                      WarnSize (length data), Prompt])\<lparr>stdin := rest\<rparr>)"
  using assms by (simp add: convert_sram_save_def Let_def print_def)

lemma convert_mismatch_confirmed:
  assumes "files w (Path input_file) = Some (File data)" and "length data \<noteq> 131072"
    and "stdin w = r # rest" and "lower r = ''y''"
  shows "convert_sram_save input_file output_file w =
           extract_and_write (Path input_file) output_file data
             ((print w [Reading (name (Path input_file)), FileSize (length data),
                        WarnSize (length data), Prompt])\<lparr>stdin := rest\<rparr>)"
  using assms by (simp add: convert_sram_save_def Let_def print_def)


lemma sample_world_simps:
  "files (sample_world f d ls) (Path f) = Some (File d)"
  "writable (sample_world f d ls) p"
  "stdin (sample_world f d ls) = ls"
  "stdout (sample_world f d ls) = []"
  by (simp_all add: sample_world_def)

lemma output_ofI: "stdout (snd r) = stdout w @ ms \<Longrightarrow> output_of w r = ms"
  by (simp add: output_of_def)

lemma convert_output:
  assumes "files w (Path input_file) = Some (File data)"
  shows "\<exists>ms. output_of w (convert_sram_save input_file output_file w) =
               [Reading (name (Path input_file)), FileSize (length data)] @
               (if length data \<noteq> 131072 then [WarnSize (length data), Prompt] else []) @ ms \<and>
             Prompt \<notin> set ms \<and> (\<forall>n. WarnSize n \<notin> set ms) \<and>
             (Extracting 0x8000 \<in> set ms \<longleftrightarrow>
                length data = 131072 \<or> (\<exists>r rest. stdin w = r # rest \<and> lower r = ''y''))"
proof (cases "length data = 131072")
  case True
  let ?w1 = "print w [Reading (name (Path input_file)), FileSize 131072]"
  from extract_stdout [of "Path input_file" output_file data ?w1]
  obtain ms where ms: "stdout (snd (extract_and_write (Path input_file) output_file data ?w1)) =
      stdout ?w1 @ Extracting 0x8000 # ms" "Prompt \<notin> set ms" "\<forall>n. WarnSize n \<notin> set ms"
    by blast
  from ms(1) have "output_of w (convert_sram_save input_file output_file w) =
      [Reading (name (Path input_file)), FileSize (length data)] @ [] @ (Extracting 0x8000 # ms)"
    using True by (intro output_ofI) (simp add: convert_exact [OF assms True] print_simps)
  with ms(2,3) True show ?thesis by (intro exI [of _ "Extracting 0x8000 # ms"]) simp
next
  case False
  let ?w2 = "print w [Reading (name (Path input_file)), FileSize (length data),
                      WarnSize (length data), Prompt]"
  show ?thesis
  proof (cases "stdin w")
    case Nil
    have "output_of w (convert_sram_save input_file output_file w) =
      [Reading (name (Path input_file)), FileSize (length data)] @
      [WarnSize (length data), Prompt] @ []"
      by (intro output_ofI) (simp add: convert_mismatch_eof [OF assms False Nil] print_simps)
    with False Nil show ?thesis by (intro exI [of _ "[]"]) simp
  next
    case (Cons r rest)
    show ?thesis
    proof (cases "lower r = ''y''")
      case no: False
      have "output_of w (convert_sram_save input_file output_file w) =
        [Reading (name (Path input_file)), FileSize (length data)] @
        [WarnSize (length data), Prompt] @ []"
        by (intro output_ofI)
           (simp add: convert_mismatch_declined [OF assms False Cons no] print_simps)
      with False Cons no show ?thesis by (intro exI [of _ "[]"]) simp
    next
      case yes: True
      let ?w3 = "?w2\<lparr>stdin := rest\<rparr>"
      from extract_stdout [of "Path input_file" output_file data ?w3]
      obtain ms where ms: "stdout (snd (extract_and_write (Path input_file) output_file data ?w3)) =
          stdout ?w3 @ Extracting 0x8000 # ms" "Prompt \<notin> set ms" "\<forall>n. WarnSize n \<notin> set ms"
        by blast
      from ms(1) have "output_of w (convert_sram_save input_file output_file w) =
        [Reading (name (Path input_file)), FileSize (length data)] @
        [WarnSize (length data), Prompt] @ (Extracting 0x8000 # ms)"
        by (intro output_ofI)
           (simp add: convert_mismatch_confirmed [OF assms False Cons yes] print_simps)
      with ms(2,3) False Cons yes show ?thesis
        by (intro exI [of _ "Extracting 0x8000 # ms"]) simp
    qed
  qed
qed


text \<open>
  Claim C1. When the input file holds exactly 131072 bytes, the run returns \<open>True\<close>
  whenever the output path is determined and can be opened for writing; a run that
  returns \<open>True\<close> has changed the file system at the output path only, where it wrote
  the first 32768 bytes of the input; these are 32768 bytes, and byte \<open>i\<close> of them is
  byte \<open>i\<close> of the input.
\<close>

theorem convert_exact_size_region:
  assumes "files w (Path input_file) = Some (File data)" and "length data = 131072"
  shows "(\<forall>out. determine_output (Path input_file) output_file = Return out \<and> writable w out \<longrightarrow>
            fst (convert_sram_save input_file output_file w) = Return True) \<and>
         (fst (convert_sram_save input_file output_file w) = Return True \<longrightarrow>
            (\<exists>out. determine_output (Path input_file) output_file = Return out \<and>
                   files (snd (convert_sram_save input_file output_file w)) =
                     (files w)(out \<mapsto> File (take 32768 data)))) \<and>
         length (take 32768 data) = 32768 \<and>
         (\<forall>i<32768. take 32768 data ! i = data ! i)"
proof (intro conjI allI impI)
  let ?w1 = "print w [Reading (name (Path input_file)), FileSize 131072]"
  note run = convert_exact [OF assms, of output_file]
  from assms(2) have big: "0x8000 \<le> length data" by simp
  {
    fix out
    assume "determine_output (Path input_file) output_file = Return out \<and> writable w out"
    then have "determine_output (Path input_file) output_file = Return out" "writable ?w1 out"
      by (simp_all add: print_simps)
    from extract_success [OF big this]
    show "fst (convert_sram_save input_file output_file w) = Return True"
      by (simp add: run)
  next
    assume "fst (convert_sram_save input_file output_file w) = Return True"
    then have "fst (extract_and_write (Path input_file) output_file data ?w1) = Return True"
      by (simp add: run)
    from extract_True_only [OF this]
    show "\<exists>out. determine_output (Path input_file) output_file = Return out \<and>
                   files (snd (convert_sram_save input_file output_file w)) =
                     (files w)(out \<mapsto> File (take 32768 data))"
      by (auto simp: run print_simps)
  next
    from assms(2) show "length (take 32768 data) = 32768" by simp
  next
    fix i :: nat
    assume "i < 32768"
    then show "take 32768 data ! i = data ! i" by simp
  }
qed


theorem convert_exact_size_region_witness:
  "files (sample_world ''ROMF.ram'' (replicate 131072 0) []) (Path ''ROMF.ram'') =
     Some (File (replicate 131072 0)) \<and>
   length (replicate 131072 (0::byte)) = 131072 \<and>
   fst (convert_sram_save ''ROMF.ram'' None (sample_world ''ROMF.ram'' (replicate 131072 0) [])) =
     Return True \<and>
   files (snd (convert_sram_save ''ROMF.ram'' None
                 (sample_world ''ROMF.ram'' (replicate 131072 0) []))) =
     (files (sample_world ''ROMF.ram'' (replicate 131072 0) []))
       (\<lparr>anchor = [], tail = [''ROMF.sav'']\<rparr> \<mapsto> File (replicate 32768 0))"
proof -
  let ?d = "replicate 131072 (0::byte)"
  let ?w = "sample_world ''ROMF.ram'' ?d []"
  let ?out = "\<lparr>anchor = [], tail = [''ROMF.sav'']\<rparr>"
  have f: "files ?w (Path ''ROMF.ram'') = Some (File ?d)" by (rule sample_world_simps)
  have l: "length ?d = 131072" by simp
  have d: "determine_output (Path ''ROMF.ram'') None = Return ?out"
    by (simp add: determine_output_def with_suffix_def Path_def splitroot_def name_def
          suffix_def Let_def)
  have wr: "writable ?w ?out" by (rule sample_world_simps)
  note inst = convert_exact_size_region [OF f l, of None]
  from inst d wr have ok: "fst (convert_sram_save ''ROMF.ram'' None ?w) = Return True" by blast
  with inst obtain out where "determine_output (Path ''ROMF.ram'') None = Return out"
    "files (snd (convert_sram_save ''ROMF.ram'' None ?w)) = (files ?w)(out \<mapsto> File (take 32768 ?d))"
    by blast
  with d have "files (snd (convert_sram_save ''ROMF.ram'' None ?w)) =
      (files ?w)(?out \<mapsto> File (replicate 32768 0))" by simp
  with f l ok show ?thesis by simp
qed

text \<open>
  Claim C2. When the input file holds fewer than 32768 bytes, the run does not return
  \<open>True\<close> and leaves the file system as it was; it returns \<open>False\<close> whenever a
  response can be read from the terminal (without one, \<open>input()\<close> raises
  \<open>EOFError\<close>). The extraction itself, reached after the answer \<open>y\<close>, reports that it
  could not extract 32768 bytes and returns \<open>False\<close>.
\<close>

theorem convert_short_input_fails:
  assumes "files w (Path input_file) = Some (File data)" and "length data < 32768"
  shows "fst (convert_sram_save input_file output_file w) \<noteq> Return True \<and>
         files (snd (convert_sram_save input_file output_file w)) = files w \<and>
         (stdin w \<noteq> [] \<longrightarrow> fst (convert_sram_save input_file output_file w) = Return False) \<and>
         (\<forall>w'. extract_and_write (Path input_file) output_file data w' =
                 (Return False, print w' [Extracting 32768, ErrorExtract 32768]))"
proof -
  from assms(2) have ne: "length data \<noteq> 131072" and short: "length data < 0x8000" by simp_all
  have ext: "extract_and_write (Path input_file) output_file data w' =
               (Return False, print w' [Extracting 32768, ErrorExtract 32768])" for w'
    using extract_short [OF short] by simp
  show ?thesis
  proof (cases "stdin w")
    case Nil
    from convert_mismatch_eof [OF assms(1) ne Nil] Nil ext show ?thesis
      by (simp add: print_simps)
  next
    case (Cons r rest)
    show ?thesis
    proof (cases "lower r = ''y''")
      case True
      from convert_mismatch_confirmed [OF assms(1) ne Cons True] ext show ?thesis
        by (simp add: print_simps)
    next
      case False
      from convert_mismatch_declined [OF assms(1) ne Cons False] ext show ?thesis
        by (simp add: print_simps)
    qed
  qed
qed

theorem convert_short_input_fails_witness:
  "files (sample_world ''ROMF.ram'' (replicate 32767 0xFF) [''y'']) (Path ''ROMF.ram'') =
     Some (File (replicate 32767 0xFF)) \<and>
   length (replicate 32767 (0xFF::byte)) < 32768 \<and>
   fst (convert_sram_save ''ROMF.ram'' None (sample_world ''ROMF.ram'' (replicate 32767 0xFF) [''y''])) =
     Return False \<and>
   files (snd (convert_sram_save ''ROMF.ram'' None
                 (sample_world ''ROMF.ram'' (replicate 32767 0xFF) [''y'']))) =
     files (sample_world ''ROMF.ram'' (replicate 32767 0xFF) [''y''])"
proof -
  let ?d = "replicate 32767 (0xFF::byte)"
  let ?w = "sample_world ''ROMF.ram'' ?d [''y'']"
  have f: "files ?w (Path ''ROMF.ram'') = Some (File ?d)" by (rule sample_world_simps)
  have l: "length ?d < 32768" by simp
  have s: "stdin ?w \<noteq> []" by (simp add: sample_world_simps)
  from convert_short_input_fails [OF f l, of None] s f l show ?thesis by simp
qed

text \<open>
  Claim C4. The size check of line 53 takes the mismatch branch exactly when the length
  of the input is not 131072: the warning, which carries the actual length, and the
  prompt are printed in that case and in no other. On a mismatch, a response whose
  lower-case form is not \<open>y\<close> makes the run return \<open>False\<close> with the file system
  unchanged.
\<close>

theorem size_check_mismatch:
  assumes "files w (Path input_file) = Some (File data)"
  shows "(\<forall>n. WarnSize n \<in> set (output_of w (convert_sram_save input_file output_file w)) \<longleftrightarrow>
              n = length data \<and> length data \<noteq> 131072) \<and>
         (Prompt \<in> set (output_of w (convert_sram_save input_file output_file w)) \<longleftrightarrow>
              length data \<noteq> 131072) \<and>
         (\<forall>r rest. length data \<noteq> 131072 \<and> stdin w = r # rest \<and> lower r \<noteq> ''y'' \<longrightarrow>
              fst (convert_sram_save input_file output_file w) = Return False \<and>
              files (snd (convert_sram_save input_file output_file w)) = files w)"
proof -
  from convert_output [OF assms, of output_file]
  obtain ms where ms: "output_of w (convert_sram_save input_file output_file w) =
               [Reading (name (Path input_file)), FileSize (length data)] @
               (if length data \<noteq> 131072 then [WarnSize (length data), Prompt] else []) @ ms"
      "Prompt \<notin> set ms" "\<forall>n. WarnSize n \<notin> set ms"
    by blast
  have a: "\<forall>n. WarnSize n \<in> set (output_of w (convert_sram_save input_file output_file w)) \<longleftrightarrow>
              n = length data \<and> length data \<noteq> 131072"
    using ms(3) by (auto simp: ms(1))
  have b: "Prompt \<in> set (output_of w (convert_sram_save input_file output_file w)) \<longleftrightarrow>
              length data \<noteq> 131072"
    using ms(2) by (auto simp: ms(1))
  have c: "fst (convert_sram_save input_file output_file w) = Return False \<and>
           files (snd (convert_sram_save input_file output_file w)) = files w"
    if "length data \<noteq> 131072 \<and> stdin w = r # rest \<and> lower r \<noteq> ''y''" for r rest
  proof -
    from that have h: "length data \<noteq> 131072" "stdin w = r # rest" "lower r \<noteq> ''y''" by simp_all
    from convert_mismatch_declined [OF assms h] show ?thesis by (simp add: print_simps)
  qed
  from a b c show ?thesis by blast
qed

theorem size_check_mismatch_witness:
  "files (sample_world ''ROM.fla'' (replicate 65536 0) [''n'']) (Path ''ROM.fla'') =
     Some (File (replicate 65536 0)) \<and>
   WarnSize 65536 \<in> set (output_of (sample_world ''ROM.fla'' (replicate 65536 0) [''n''])
     (convert_sram_save ''ROM.fla'' None (sample_world ''ROM.fla'' (replicate 65536 0) [''n'']))) \<and>
   Prompt \<in> set (output_of (sample_world ''ROM.fla'' (replicate 65536 0) [''n''])
     (convert_sram_save ''ROM.fla'' None (sample_world ''ROM.fla'' (replicate 65536 0) [''n'']))) \<and>
   fst (convert_sram_save ''ROM.fla'' None (sample_world ''ROM.fla'' (replicate 65536 0) [''n''])) =
     Return False \<and>
   files (snd (convert_sram_save ''ROM.fla'' None
     (sample_world ''ROM.fla'' (replicate 65536 0) [''n'']))) =
     files (sample_world ''ROM.fla'' (replicate 65536 0) [''n''])"
proof -
  let ?w = "sample_world ''ROM.fla'' (replicate 65536 0) [''n'']"
  have f: "files ?w (Path ''ROM.fla'') = Some (File (replicate 65536 0))"
    by (rule sample_world_simps)
  have n: "length (replicate 65536 (0::byte)) \<noteq> 131072 \<and> stdin ?w = ''n'' # [] \<and> lower ''n'' \<noteq> ''y''"
    by (simp add: sample_world_simps lower_y)
  from size_check_mismatch [OF f, of None] n f show ?thesis by simp
qed

text \<open>
  Claim C8. When the input holds at least 32768 bytes but not 131072, the response is
  \<open>y\<close> or \<open>Y\<close>, and the output path is determined and can be opened for writing, the
  run returns \<open>True\<close> and has written exactly the first 32768 bytes of the input to
  the output path.
\<close>

theorem mismatch_confirmed_converts:
  assumes "files w (Path input_file) = Some (File data)"
    and "32768 \<le> length data" and "length data \<noteq> 131072"
    and "stdin w = r # rest" and "r = ''y'' \<or> r = ''Y''"
    and "determine_output (Path input_file) output_file = Return out" and "writable w out"
  shows "fst (convert_sram_save input_file output_file w) = Return True \<and>
         files (snd (convert_sram_save input_file output_file w)) =
           (files w)(out \<mapsto> File (take 32768 data)) \<and>
         length (take 32768 data) = 32768 \<and>
         (\<forall>i<32768. take 32768 data ! i = data ! i)"
proof -
  let ?w3 = "(print w [Reading (name (Path input_file)), FileSize (length data),
                       WarnSize (length data), Prompt])\<lparr>stdin := rest\<rparr>"
  from assms(5) have yes: "lower r = ''y''" by (simp add: lower_y)
  from assms(2) have big: "0x8000 \<le> length data" by simp
  from assms(7) have wr: "writable ?w3 out" by (simp add: print_simps)
  from extract_success [OF big assms(6) wr]
  have "fst (convert_sram_save input_file output_file w) = Return True \<and>
        files (snd (convert_sram_save input_file output_file w)) =
          (files w)(out \<mapsto> File (take 32768 data))"
    by (simp add: convert_mismatch_confirmed [OF assms(1,3,4) yes] print_simps)
  moreover from assms(2) have "length (take 32768 data) = 32768" by simp
  ultimately show ?thesis by simp
qed

theorem mismatch_confirmed_converts_witness:
  "fst (convert_sram_save ''ROM.fla'' (Some ''Mario Golf 64.sav'')
          (sample_world ''ROM.fla'' (replicate 65536 0xFF) [''Y''])) = Return True \<and>
   files (snd (convert_sram_save ''ROM.fla'' (Some ''Mario Golf 64.sav'')
          (sample_world ''ROM.fla'' (replicate 65536 0xFF) [''Y'']))) =
     (files (sample_world ''ROM.fla'' (replicate 65536 0xFF) [''Y'']))
       (Path ''Mario Golf 64.sav'' \<mapsto> File (replicate 32768 0xFF))"
proof -
  let ?w = "sample_world ''ROM.fla'' (replicate 65536 0xFF) [''Y'']"
  have f: "files ?w (Path ''ROM.fla'') = Some (File (replicate 65536 0xFF))"
    by (rule sample_world_simps)
  have l1: "32768 \<le> length (replicate 65536 (0xFF::byte))" by simp
  have l2: "length (replicate 65536 (0xFF::byte)) \<noteq> 131072" by simp
  have s: "stdin ?w = ''Y'' # []" by (simp add: sample_world_simps)
  have y: "''Y'' = ''y'' \<or> ''Y'' = ''Y''" by simp
  have d: "determine_output (Path ''ROM.fla'') (Some ''Mario Golf 64.sav'') =
             Return (Path ''Mario Golf 64.sav'')" by (simp add: determine_output_def)
  have wr: "writable ?w (Path ''Mario Golf 64.sav'')" by (rule sample_world_simps)
  from mismatch_confirmed_converts [OF f l1 l2 s y d wr] show ?thesis by simp
qed

text \<open>
  Claim C9. On the size-mismatch path with a response \<open>r\<close> read from the terminal, the
  extraction is started if and only if \<open>r\<close> is exactly \<open>y\<close> or \<open>Y\<close>; every other
  response makes the run return \<open>False\<close> with the file system unchanged; and after
  \<open>y\<close> or \<open>Y\<close> the run is the run of lines 61--122 on the whole input.
\<close>

theorem only_y_continues:
  assumes "files w (Path input_file) = Some (File data)" and "length data \<noteq> 131072"
    and "stdin w = r # rest"
  shows "(Extracting 32768 \<in> set (output_of w (convert_sram_save input_file output_file w)) \<longleftrightarrow>
            r = ''y'' \<or> r = ''Y'') \<and>
         (r \<noteq> ''y'' \<and> r \<noteq> ''Y'' \<longrightarrow>
            fst (convert_sram_save input_file output_file w) = Return False \<and>
            files (snd (convert_sram_save input_file output_file w)) = files w) \<and>
         (r = ''y'' \<or> r = ''Y'' \<longrightarrow>
            convert_sram_save input_file output_file w =
              extract_and_write (Path input_file) output_file data
                ((print w [Reading (name (Path input_file)), FileSize (length data),
                           WarnSize (length data), Prompt])\<lparr>stdin := rest\<rparr>))"
proof -
  from convert_output [OF assms(1), of output_file]
  obtain ms where ms: "output_of w (convert_sram_save input_file output_file w) =
               [Reading (name (Path input_file)), FileSize (length data)] @
               (if length data \<noteq> 131072 then [WarnSize (length data), Prompt] else []) @ ms"
      "Extracting 0x8000 \<in> set ms \<longleftrightarrow>
                length data = 131072 \<or> (\<exists>r rest. stdin w = r # rest \<and> lower r = ''y'')"
    by blast
  from ms(2) assms(2,3) have "Extracting 0x8000 \<in> set ms \<longleftrightarrow> r = ''y'' \<or> r = ''Y''"
    by (simp add: lower_y)
  then have one: "Extracting 32768 \<in> set (output_of w (convert_sram_save input_file output_file w)) \<longleftrightarrow>
            r = ''y'' \<or> r = ''Y''"
    using assms(2) by (simp add: ms(1))
  have two: "fst (convert_sram_save input_file output_file w) = Return False \<and>
        files (snd (convert_sram_save input_file output_file w)) = files w"
    if "r \<noteq> ''y'' \<and> r \<noteq> ''Y''"
  proof -
    from that have no: "lower r \<noteq> ''y''" by (simp add: lower_y)
    from convert_mismatch_declined [OF assms no] show ?thesis by (simp add: print_simps)
  qed
  have three: "convert_sram_save input_file output_file w =
              extract_and_write (Path input_file) output_file data
                ((print w [Reading (name (Path input_file)), FileSize (length data),
                           WarnSize (length data), Prompt])\<lparr>stdin := rest\<rparr>)"
    if "r = ''y'' \<or> r = ''Y''"
  proof -
    from that have yes: "lower r = ''y''" by (simp add: lower_y)
    from convert_mismatch_confirmed [OF assms yes] show ?thesis .
  qed
  from one two three show ?thesis by blast
qed

theorem only_y_continues_witness:
  "fst (convert_sram_save ''ROM.fla'' None
          (sample_world ''ROM.fla'' (replicate 65536 0xFF) [''yes''])) = Return False \<and>
   files (snd (convert_sram_save ''ROM.fla'' None
          (sample_world ''ROM.fla'' (replicate 65536 0xFF) [''yes'']))) =
     files (sample_world ''ROM.fla'' (replicate 65536 0xFF) [''yes'']) \<and>
   Extracting 32768 \<notin> set (output_of (sample_world ''ROM.fla'' (replicate 65536 0xFF) [''yes''])
     (convert_sram_save ''ROM.fla'' None
        (sample_world ''ROM.fla'' (replicate 65536 0xFF) [''yes'']))) \<and>
   Extracting 32768 \<in> set (output_of (sample_world ''ROM.fla'' (replicate 65536 0xFF) [''Y''])
     (convert_sram_save ''ROM.fla'' None
        (sample_world ''ROM.fla'' (replicate 65536 0xFF) [''Y'']))) \<and>
   convert_sram_save ''ROM.fla'' None (sample_world ''ROM.fla'' (replicate 65536 0xFF) [''Y'']) =
     extract_and_write (Path ''ROM.fla'') None (replicate 65536 0xFF)
       ((print (sample_world ''ROM.fla'' (replicate 65536 0xFF) [''Y''])
           [Reading (name (Path ''ROM.fla'')), FileSize 65536, WarnSize 65536, Prompt])
        \<lparr>stdin := []\<rparr>)"
proof -
  let ?d = "replicate 65536 (0xFF::byte)"
  let ?a = "sample_world ''ROM.fla'' ?d [''yes'']"
  let ?b = "sample_world ''ROM.fla'' ?d [''Y'']"
  have fa: "files ?a (Path ''ROM.fla'') = Some (File ?d)" by (rule sample_world_simps)
  have fb: "files ?b (Path ''ROM.fla'') = Some (File ?d)" by (rule sample_world_simps)
  have l: "length ?d \<noteq> 131072" by simp
  have sa: "stdin ?a = ''yes'' # []" by (simp add: sample_world_simps)
  have sb: "stdin ?b = ''Y'' # []" by (simp add: sample_world_simps)
  from only_y_continues [OF fa l sa, of None]
  have a: "fst (convert_sram_save ''ROM.fla'' None ?a) = Return False \<and>
           files (snd (convert_sram_save ''ROM.fla'' None ?a)) = files ?a \<and>
           Extracting 32768 \<notin> set (output_of ?a (convert_sram_save ''ROM.fla'' None ?a))"
    by simp
  from only_y_continues [OF fb l sb, of None, THEN conjunct1]
  have b: "Extracting 32768 \<in> set (output_of ?b (convert_sram_save ''ROM.fla'' None ?b))"
    by simp
  from only_y_continues [OF fb l sb, of None, THEN conjunct2, THEN conjunct2]
  have c: "convert_sram_save ''ROM.fla'' None ?b =
     extract_and_write (Path ''ROM.fla'') None ?d
       ((print ?b [Reading (name (Path ''ROM.fla'')), FileSize 65536, WarnSize 65536, Prompt])
        \<lparr>stdin := []\<rparr>)"
    by simp
  from a b c show ?thesis by (intro conjI) simp_all
qed

end
